theory Spec2Isabelle
  imports Main
begin

section \<open>Values, documents and the record store\<close>

text \<open>
  The webhook of \<^verbatim>\<open>api/telegram.js\<close> exists in three versions, called variant 1, 2
  and 3 below in the order in which the source lists them. All three keep their state in
  two Firestore collections: \<^verbatim>\<open>users\<close> (keyed by the Telegram user id as a string) and
  \<^verbatim>\<open>ref_rewards\<close> (keyed by the referred user's id).

  A stored field holds null, a boolean, a number or a string. Numbers are the integers
  (the code only ever adds 500 and 1 to counters that start at 0). A field that a document
  does not have reads as \<^verbatim>\<open>undefined\<close> in JavaScript: that is \<open>None\<close> here.
\<close>

datatype jsval = JNull | JBool bool | JNum int | JStr string

type_synonym doc = "string \<rightharpoonup> jsval"

text \<open>JavaScript truthiness of what a field read gives (\<^verbatim>\<open>!x\<close>, \<^verbatim>\<open>x && ...\<close>, \<^verbatim>\<open>x || ...\<close>).\<close>

fun truthy :: "jsval option \<Rightarrow> bool" where
  "truthy None = False"
| "truthy (Some JNull) = False"
| "truthy (Some (JBool b)) = b"
| "truthy (Some (JNum n)) = (n \<noteq> 0)"
| "truthy (Some (JStr s)) = (s \<noteq> [])"

text \<open>\<^verbatim>\<open>Number.prototype.toString()\<close> on an integer: its decimal digits.\<close>

fun digits :: "nat \<Rightarrow> string" where
  "digits n = (if n < 10 then [''0123456789'' ! n]
               else digits (n div 10) @ [''0123456789'' ! (n mod 10)])"

declare digits.simps [simp del]

definition toString :: "int \<Rightarrow> string" where
  "toString i = (if i < 0 then CHR ''-'' # digits (nat (- i)) else digits (nat i))"

text \<open>
  \<^verbatim>\<open>(x || 0) + k\<close> for a number \<open>k\<close>: a falsy \<open>x\<close> counts as 0, a number is added to,
  \<^verbatim>\<open>true\<close> converts to 1, and a non-empty string is concatenated with the digits of \<open>k\<close>.
\<close>

fun or0_plus :: "jsval option \<Rightarrow> int \<Rightarrow> jsval" where
  "or0_plus None k = JNum k"
| "or0_plus (Some JNull) k = JNum k"
| "or0_plus (Some (JBool b)) k = JNum ((if b then 1 else 0) + k)"
| "or0_plus (Some (JNum n)) k = JNum (n + k)"
| "or0_plus (Some (JStr s)) k = (if s = [] then JNum k else JStr (s @ toString k))"

text \<open>
  An entry of \<^verbatim>\<open>ref_rewards\<close>: the code only ever writes it whole, with the fields
  \<^verbatim>\<open>userId\<close>, \<^verbatim>\<open>referrerId\<close> and \<^verbatim>\<open>reward\<close>. Its fourth field \<^verbatim>\<open>createdAt\<close> is the
  server's commit time, which no decision of the code reads; it is left out.
\<close>

record reward_entry =
  r_userId :: jsval
  r_referrerId :: jsval
  r_reward :: int

record store =
  users :: "string \<rightharpoonup> doc"
  ref_rewards :: "string \<rightharpoonup> reward_entry"

text \<open>
  What a write stores in one field: a value, or Firestore's \<^verbatim>\<open>increment(k)\<close>, which adds
  \<open>k\<close> to a numeric field and sets any other (or missing) field to \<open>k\<close>.
\<close>

datatype fop = Put jsval | Incr int

fun apply_field :: "doc \<Rightarrow> string \<times> fop \<Rightarrow> doc" where
  "apply_field d (f, Put v) = d(f \<mapsto> v)"
| "apply_field d (f, Incr k) = d(f \<mapsto> JNum ((case d f of Some (JNum n) \<Rightarrow> n | _ \<Rightarrow> 0) + k))"

definition apply_fields :: "doc \<Rightarrow> (string \<times> fop) list \<Rightarrow> doc" where
  "apply_fields d fs = foldl apply_field d fs"

text \<open>
  The writes the code issues: \<^verbatim>\<open>update(ref, fields)\<close> (fails when the document does not
  exist), \<^verbatim>\<open>set(ref, fields, {merge: true})\<close> (creates the document when it is missing),
  \<^verbatim>\<open>set(ref, fields)\<close> (replaces the document), each on \<^verbatim>\<open>users\<close>, and the
  \<^verbatim>\<open>set\<close> of a \<^verbatim>\<open>ref_rewards\<close> entry.
\<close>

datatype write_op =
    UpdateUser string "(string \<times> fop) list"
  | SetMergeUser string "(string \<times> fop) list"
  | SetUser string "(string \<times> fop) list"
  | SetReward string reward_entry

datatype error = ReadAfterWrite | NotFound | BadPath | Unavailable | TypeError

fun apply_write :: "write_op \<Rightarrow> store \<Rightarrow> error + store" where
  "apply_write (UpdateUser k fs) s =
     (case users s k of
        None \<Rightarrow> Inl NotFound
      | Some d \<Rightarrow> Inr (s\<lparr>users := (users s)(k \<mapsto> apply_fields d fs)\<rparr>))"
| "apply_write (SetMergeUser k fs) s =
     Inr (s\<lparr>users := (users s)(k \<mapsto>
            apply_fields (case users s k of None \<Rightarrow> Map.empty | Some d \<Rightarrow> d) fs)\<rparr>)"
| "apply_write (SetUser k fs) s =
     Inr (s\<lparr>users := (users s)(k \<mapsto> apply_fields Map.empty fs)\<rparr>)"
| "apply_write (SetReward k e) s =
     Inr (s\<lparr>ref_rewards := (ref_rewards s)(k \<mapsto> e)\<rparr>)"

text \<open>A transaction's buffered writes commit in order, all or none.\<close>

fun apply_writes :: "write_op list \<Rightarrow> store \<Rightarrow> error + store" where
  "apply_writes [] s = Inr s"
| "apply_writes (w # ws) s =
     (case apply_write w s of Inl e \<Rightarrow> Inl e | Inr s' \<Rightarrow> apply_writes ws s')"

text \<open>
  \<^verbatim>\<open>runTransaction(db, body)\<close>, run alone: the body reads the store and buffers writes, or
  throws; the commit applies the writes or fails, and a failure leaves the store as it was.
  The flag \<open>ok\<close> is the store's side: \<open>False\<close> is a rejected transaction (the network, or
  contention after the last retry).
\<close>

definition runTransaction ::
  "bool \<Rightarrow> (store \<Rightarrow> error + write_op list) \<Rightarrow> store \<Rightarrow> (error + unit) \<times> store" where
  "runTransaction ok body s =
     (if \<not> ok then (Inl Unavailable, s)
      else case body s of
             Inl e \<Rightarrow> (Inl e, s)
           | Inr ws \<Rightarrow> (case apply_writes ws s of
                         Inl e \<Rightarrow> (Inl e, s)
                       | Inr s' \<Rightarrow> (Inr (), s')))"

text \<open>
  \<^verbatim>\<open>doc(db, 'users', id)\<close> needs a string: a stored \<^verbatim>\<open>refferBy\<close> that is truthy but not
  a string makes it throw.
\<close>

fun doc_key :: "jsval option \<Rightarrow> string option" where
  "doc_key (Some (JStr k)) = Some k"
| "doc_key _ = None"

section \<open>The reward transaction\<close>

subsection \<open>Variant 1\<close>

text \<open>
  The body of variant 1 updates the user and then reads the user again. The Firestore
  client refuses a read after a write inside a transaction (variant 2 is headed
  \<^verbatim>\<open>FIXED: All Reads First -> Then Writes\<close>), so the body throws as soon as one of its
  first two updates was issued. Where none was, the second read returns what the first did.
\<close>

definition txn_v1 :: "string \<Rightarrow> string option \<Rightarrow> store \<Rightarrow> error + write_op list" where
  "txn_v1 userId referralId s =
     (case users s userId of
        None \<Rightarrow> Inr []
      | Some data \<Rightarrow>
          let w1 = (if data ''coins'' = None
                    then [UpdateUser userId
                            [(''coins'', Put (JNum 0)), (''reffer'', Put (JNum 0)),
                             (''rewardGiven'', Put (JBool False)),
                             (''tasksCompleted'', Put (JNum 0)),
                             (''totalWithdrawals'', Put (JNum 0))]]
                    else []);
              w2 = (case referralId of
                      None \<Rightarrow> []
                    | Some r \<Rightarrow>
                        if \<not> truthy (data ''refferBy'') \<and> r \<noteq> [] \<and> r \<noteq> userId
                        then [UpdateUser userId [(''refferBy'', Put (JStr r))]]
                        else [])
          in if w1 @ w2 \<noteq> [] then Inl ReadAfterWrite
             else
               let freshData = data;
                   currentReferrerId = freshData ''refferBy''
               in if truthy (freshData ''frontendOpened'')
                     \<and> \<not> truthy (freshData ''rewardGiven'')
                     \<and> truthy currentReferrerId
                  then (case doc_key currentReferrerId of
                          None \<Rightarrow> Inl BadPath
                        | Some rk \<Rightarrow>
                            (case users s rk of
                               None \<Rightarrow> Inr []
                             | Some referrerData \<Rightarrow>
                                 Inr [UpdateUser rk
                                        [(''coins'', Put (or0_plus (referrerData ''coins'') 500)),
                                         (''reffer'', Put (or0_plus (referrerData ''reffer'') 1))],
                                      UpdateUser userId [(''rewardGiven'', Put (JBool True))],
                                      SetReward userId
                                        \<lparr>r_userId = JStr userId,
                                         r_referrerId = JStr rk,
                                         r_reward = 500\<rparr>]))
                  else Inr [])"

subsection \<open>Variant 2\<close>

text \<open>
  Variant 2 reads first and writes afterwards. \<open>finalReferrerId\<close> is the stored
  \<^verbatim>\<open>refferBy\<close>, or else the token of this event when it is non-empty and not the user's
  own id. \<open>userUpdates\<close> is collected field by field (the defaults when \<^verbatim>\<open>coins\<close> is
  undefined, then \<^verbatim>\<open>refferBy\<close> when it is new) and written last, in one update; in the
  reward branch \<^verbatim>\<open>rewardGiven = true\<close> is collected after them.
\<close>

definition finalReferrerId :: "string \<Rightarrow> string option \<Rightarrow> doc \<Rightarrow> jsval option" where
  "finalReferrerId userId referralId userData =
     (case referralId of
        None \<Rightarrow> userData ''refferBy''
      | Some r \<Rightarrow>
          if \<not> truthy (userData ''refferBy'') \<and> r \<noteq> [] \<and> r \<noteq> userId
          then Some (JStr r) else userData ''refferBy'')"

definition userUpdates :: "string \<Rightarrow> string option \<Rightarrow> doc \<Rightarrow> (string \<times> fop) list" where
  "userUpdates userId referralId userData =
     (if userData ''coins'' = None
      then [(''coins'', Put (JNum 0)), (''reffer'', Put (JNum 0)),
            (''tasksCompleted'', Put (JNum 0)), (''totalWithdrawals'', Put (JNum 0)),
            (''rewardGiven'', Put (JBool False))]
      else [])
     @ (case finalReferrerId userId referralId userData of
          None \<Rightarrow> []
        | Some v \<Rightarrow>
            if \<not> truthy (userData ''refferBy'') \<and> truthy (Some v)
            then [(''refferBy'', Put v)] else [])"

text \<open>The last step of the body: one update of the user, if any field was collected.\<close>

definition commit_user :: "string \<Rightarrow> (string \<times> fop) list \<Rightarrow> write_op list" where
  "commit_user userId ups = (if ups \<noteq> [] then [UpdateUser userId ups] else [])"

definition txn_v2 :: "string \<Rightarrow> string option \<Rightarrow> store \<Rightarrow> error + write_op list" where
  "txn_v2 userId referralId s =
     (case users s userId of
        None \<Rightarrow> Inr []
      | Some userData \<Rightarrow>
          let final = finalReferrerId userId referralId userData;
              ups = userUpdates userId referralId userData
          in if truthy final \<and> \<not> truthy (userData ''rewardGiven'')
             then (case doc_key final of
                     None \<Rightarrow> Inl BadPath
                   | Some rk \<Rightarrow>
                       (case users s rk of
                          None \<Rightarrow> Inr (commit_user userId ups)
                        | Some refData \<Rightarrow>
                            Inr [UpdateUser rk
                                   [(''coins'', Put (or0_plus (refData ''coins'') 500)),
                                    (''reffer'', Put (or0_plus (refData ''reffer'') 1))],
                                 SetReward userId
                                   \<lparr>r_userId = JStr userId,
                                    r_referrerId = JStr rk,
                                    r_reward = 500\<rparr>,
                                 UpdateUser userId
                                   (ups @ [(''rewardGiven'', Put (JBool True))])]))
             else Inr (commit_user userId ups))"

subsection \<open>Variant 3\<close>

text \<open>
  \<open>processReferralReward\<close> of variant 3 takes the numeric user id and the token. It
  returns at once for a missing, empty or own token. The referrer document is addressed
  by the token and credited with a merge-set of two increments, without a read; the
  ledger entry names \<open>currentReferrer\<close>. An error of the transaction is caught and logged.
\<close>

definition reward_txn_v3 :: "int \<Rightarrow> string \<Rightarrow> store \<Rightarrow> error + write_op list" where
  "reward_txn_v3 userId referralId s =
     (case users s (toString userId) of
        None \<Rightarrow> Inr []
      | Some userData \<Rightarrow>
          if userData ''rewardGiven'' = Some (JBool True) then Inr []
          else
            let assign = (\<not> truthy (userData ''refferBy'') \<and> referralId \<noteq> []);
                currentReferrer = (if assign then Some (JStr referralId)
                                   else userData ''refferBy'');
                w1 = (if assign
                      then [SetMergeUser (toString userId) [(''refferBy'', Put (JStr referralId))]]
                      else [])
            in (case currentReferrer of
                  None \<Rightarrow> Inr w1
                | Some cr \<Rightarrow>
                    if \<not> truthy currentReferrer then Inr w1
                    else Inr (w1 @
                      [SetMergeUser referralId [(''coins'', Incr 500), (''reffer'', Incr 1)],
                       UpdateUser (toString userId) [(''rewardGiven'', Put (JBool True))],
                       SetReward (toString userId)
                         \<lparr>r_userId = JNum userId, r_referrerId = cr, r_reward = 500\<rparr>])))"

definition processReferralReward :: "bool \<Rightarrow> int \<Rightarrow> string option \<Rightarrow> store \<Rightarrow> store" where
  "processReferralReward ok userId referralId s =
     (case referralId of
        None \<Rightarrow> s
      | Some r \<Rightarrow>
          if r = [] \<or> r = toString userId then s
          else snd (runTransaction ok (reward_txn_v3 userId r) s))"

section \<open>The webhook handlers\<close>

subsection \<open>Strings\<close>

definition startsWith :: "string \<Rightarrow> string \<Rightarrow> bool" where
  "startsWith s p = (take (length p) s = p)"

text \<open>\<^verbatim>\<open>s.split(c)\<close> for a one-character separator: never empty, one more part than separators.\<close>

fun split_on :: "char \<Rightarrow> string \<Rightarrow> string list" where
  "split_on c [] = [[]]"
| "split_on c (x # xs) =
     (if x = c then [] # split_on c xs
      else (case split_on c xs of
              [] \<Rightarrow> [[x]]
            | w # ws \<Rightarrow> (x # w) # ws))"

text \<open>\<^verbatim>\<open>s.replace(pat, rep)\<close> with a string pattern: the first occurrence only.\<close>

fun replace_first :: "string \<Rightarrow> string \<Rightarrow> string \<Rightarrow> string" where
  "replace_first pat rep [] = (if pat = [] then rep else [])"
| "replace_first pat rep (c # cs) =
     (if startsWith (c # cs) pat then rep @ drop (length pat) (c # cs)
      else c # replace_first pat rep cs)"

text \<open>\<open>extractReferralId\<close> of variants 1 and 2; \<open>None\<close> is \<^verbatim>\<open>null\<close>.\<close>

definition extractReferralId :: "string \<Rightarrow> string option" where
  "extractReferralId txt =
     (if txt = [] \<or> \<not> startsWith txt ''/start'' then None
      else let parts = split_on CHR '' '' txt
           in if length parts < 2 then None
              else let payload = parts ! 1
                   in if startsWith payload ''ref''
                      then Some (replace_first ''ref'' [] payload)
                      else Some payload)"

text \<open>The inline extraction of variant 3: the second part as it is.\<close>

definition extract_v3 :: "string \<Rightarrow> string option" where
  "extract_v3 txt =
     (if startsWith txt ''/start''
      then let parts = split_on CHR '' '' txt
           in if length parts > 1 then Some (parts ! 1) else None
      else None)"

subsection \<open>Requests, the environment and results\<close>

text \<open>
  An update as the handlers read it. A field that may be missing is an option:
  \<^verbatim>\<open>message.from\<close>, \<^verbatim>\<open>message.chat\<close> (of which only \<^verbatim>\<open>id\<close> is read),
  \<^verbatim>\<open>message.text\<close>, \<^verbatim>\<open>from.first_name\<close>; \<open>req_body = None\<close> is a request without a body,
  \<open>Some None\<close> a body without \<^verbatim>\<open>message\<close>.
\<close>

record tg_user =
  uid :: int
  first_name :: "string option"
  is_bot :: bool

record tg_message =
  msg_from :: "tg_user option"
  msg_chat :: "int option"
  msg_text :: "string option"

record request =
  req_method :: string
  req_body :: "tg_message option option"

text \<open>
  What the services outside the handler do in one invocation: the profile photo that
  \<open>getUserPhoto\<close> ends with (\<open>None\<close> also when the Telegram API failed: the helper catches
  it), and whether each call to the store and \<^verbatim>\<open>bot.sendPhoto\<close> succeeds or throws.
\<close>

record env =
  photo :: "string option"
  getDoc_ok :: bool
  setDoc_ok :: bool
  txn_ok :: bool
  sendPhoto_ok :: bool

text \<open>
  What one invocation leaves: the HTTP response the handler sent (\<open>None\<close> when it threw
  before sending one), the chats that received the welcome photo, and the store.
\<close>

record outcome =
  response :: "(nat \<times> string) option"
  welcomed :: "int list"
  final :: store

definition or_default :: "string option \<Rightarrow> string \<Rightarrow> string" where
  "or_default x d = (case x of None \<Rightarrow> d | Some v \<Rightarrow> if v = [] then d else v)"

definition jstr_or_null :: "string option \<Rightarrow> jsval" where
  "jstr_or_null x = (case x of None \<Rightarrow> JNull | Some v \<Rightarrow> JStr v)"

subsection \<open>Variants 1 and 2\<close>

text \<open>
  The first store write of variants 1 and 2: a merge-set of the identity fields, which
  creates the user's document when it is missing.
\<close>

definition ensureUser_v1 :: "string \<Rightarrow> string \<Rightarrow> string option \<Rightarrow> store \<Rightarrow> store" where
  "ensureUser_v1 userId firstName photoUrl s =
     s\<lparr>users := (users s)(userId \<mapsto>
          apply_fields (case users s userId of None \<Rightarrow> Map.empty | Some d \<Rightarrow> d)
            [(''id'', Put (JStr userId)), (''name'', Put (JStr firstName)),
             (''photoURL'', Put (jstr_or_null photoUrl)),
             (''frontendOpened'', Put (JBool True))])\<rparr>"

text \<open>
  Variants 1 and 2 share the handler and differ in the transaction body, the parameter
  \<open>txn\<close>. Everything after the method check runs inside one \<^verbatim>\<open>try\<close>, whose \<^verbatim>\<open>catch\<close>
  answers 200 with the text Error.
\<close>

definition handler_shell ::
  "(string \<Rightarrow> string option \<Rightarrow> store \<Rightarrow> error + write_op list) \<Rightarrow> env \<Rightarrow> request \<Rightarrow> store \<Rightarrow> outcome" where
  "handler_shell txn e req s =
     (let caught = (\<lambda>s'. \<lparr>response = Some (200, ''Error''), welcomed = [], final = s'\<rparr>);
          ignored = \<lparr>response = Some (200, ''OK''), welcomed = [], final = s\<rparr>
      in if req_method req \<noteq> ''POST''
         then \<lparr>response = Some (200, ''Telegram Bot Webhook Active''), welcomed = [], final = s\<rparr>
         else
           (case req_body req of
              None \<Rightarrow> caught s
            | Some None \<Rightarrow> ignored
            | Some (Some msg) \<Rightarrow>
                (case msg_from msg of
                   None \<Rightarrow> ignored
                 | Some user \<Rightarrow>
                     if is_bot user then ignored
                     else
                       let userId = toString (uid user);
                           firstName = or_default (first_name user) ''User'';
                           txt = or_default (msg_text msg) []
                       in if \<not> startsWith txt ''/start'' then ignored
                          else
                            let referralId = extractReferralId txt;
                                photoUrl = photo e
                            in if \<not> setDoc_ok e then caught s
                               else
                                 let s1 = ensureUser_v1 userId firstName photoUrl s
                                 in (case runTransaction (txn_ok e) (txn userId referralId) s1 of
                                       (Inl err, s2) \<Rightarrow> caught s2
                                     | (Inr u, s2) \<Rightarrow>
                                         (case msg_chat msg of
                                            None \<Rightarrow> caught s2
                                          | Some chatId \<Rightarrow>
                                              if \<not> sendPhoto_ok e then caught s2
                                              else \<lparr>response = Some (200, ''OK''),
                                                    welcomed = [chatId], final = s2\<rparr>)))))"

definition handler_v1 :: "env \<Rightarrow> request \<Rightarrow> store \<Rightarrow> outcome" where
  "handler_v1 = handler_shell txn_v1"

definition handler_v2 :: "env \<Rightarrow> request \<Rightarrow> store \<Rightarrow> outcome" where
  "handler_v2 = handler_shell txn_v2"

subsection \<open>Variant 3\<close>

text \<open>
  Variant 3 reads the user's document first (\<open>getDocSafe\<close>) and then either creates it
  with every default, or merges the identity fields into it. It stores the numeric id.
\<close>

definition baseData :: "int \<Rightarrow> string \<Rightarrow> string option \<Rightarrow> (string \<times> fop) list" where
  "baseData userId firstName photoURL =
     [(''id'', Put (JNum userId)), (''name'', Put (JStr firstName)),
      (''photoURL'', Put (jstr_or_null (if photoURL = Some [] then None else photoURL))),
      (''frontendOpened'', Put (JBool True))]"

definition ensureUser_v3 ::
  "int \<Rightarrow> string \<Rightarrow> string option \<Rightarrow> string option \<Rightarrow> store \<Rightarrow> store" where
  "ensureUser_v3 userId firstName photoURL referralId s =
     (case users s (toString userId) of
        None \<Rightarrow>
          s\<lparr>users := (users s)(toString userId \<mapsto>
               apply_fields Map.empty
                 (baseData userId firstName photoURL @
                  [(''coins'', Put (JNum 0)), (''reffer'', Put (JNum 0)),
                   (''refferBy'', Put (jstr_or_null (if referralId = Some [] then None else referralId))),
                   (''tasksCompleted'', Put (JNum 0)),
                   (''totalWithdrawals'', Put (JNum 0)),
                   (''rewardGiven'', Put (JBool False))]))\<rparr>
      | Some d \<Rightarrow>
          s\<lparr>users := (users s)(toString userId \<mapsto>
               apply_fields d (baseData userId firstName photoURL))\<rparr>)"

text \<open>
  \<open>getDocSafe\<close> and \<^verbatim>\<open>setDoc\<close> are two separate calls to the store. \<open>createUser_v3\<close> is
  the plain \<^verbatim>\<open>setDoc\<close> of the new-user branch by itself, as an invocation issues it after
  its \<open>getDocSafe\<close> found no record: it replaces whatever record is there by then.
\<close>

definition createUser_v3 ::
  "int \<Rightarrow> string \<Rightarrow> string option \<Rightarrow> string option \<Rightarrow> store \<Rightarrow> store" where
  "createUser_v3 userId firstName photoURL referralId s =
     s\<lparr>users := (users s)(toString userId \<mapsto>
          apply_fields Map.empty
            (baseData userId firstName photoURL @
             [(''coins'', Put (JNum 0)), (''reffer'', Put (JNum 0)),
              (''refferBy'', Put (jstr_or_null (if referralId = Some [] then None else referralId))),
              (''tasksCompleted'', Put (JNum 0)),
              (''totalWithdrawals'', Put (JNum 0)),
              (''rewardGiven'', Put (JBool False))]))\<rparr>"

text \<open>
  Variant 3 also declares \<open>createOrEnsureUser\<close>, a merge-set of the identity fields;
  its handler does not call it.
\<close>

definition createOrEnsureUser ::
  "int \<Rightarrow> string \<Rightarrow> string option \<Rightarrow> string option \<Rightarrow> store \<Rightarrow> store" where
  "createOrEnsureUser userId firstName photoURL referralId s =
     s\<lparr>users := (users s)(toString userId \<mapsto>
          apply_fields (case users s (toString userId) of None \<Rightarrow> Map.empty | Some d \<Rightarrow> d)
            [(''id'', Put (JNum userId)), (''name'', Put (JStr firstName)),
             (''photoURL'', Put (jstr_or_null photoURL)),
             (''frontendOpened'', Put (JBool True))])\<rparr>"

text \<open>
  The handler of variant 3 does not look at the method. It reads \<^verbatim>\<open>msg.chat.id\<close> and
  \<^verbatim>\<open>msg.from.id\<close> before its \<^verbatim>\<open>try\<close>: a message without \<^verbatim>\<open>chat\<close> or \<^verbatim>\<open>from\<close> makes it
  throw there, and no response is sent. Inside the \<^verbatim>\<open>try\<close> every error is logged and the
  handler still answers 200.
\<close>

definition handler_v3 :: "env \<Rightarrow> request \<Rightarrow> store \<Rightarrow> outcome" where
  "handler_v3 e req s =
     (case req_body req of
        None \<Rightarrow> \<lparr>response = Some (200, ''No message found''), welcomed = [], final = s\<rparr>
      | Some None \<Rightarrow> \<lparr>response = Some (200, ''No message found''), welcomed = [], final = s\<rparr>
      | Some (Some msg) \<Rightarrow>
          (case msg_chat msg of
             None \<Rightarrow> \<lparr>response = None, welcomed = [], final = s\<rparr>
           | Some chatId \<Rightarrow>
               (case msg_from msg of
                  None \<Rightarrow> \<lparr>response = None, welcomed = [], final = s\<rparr>
                | Some user \<Rightarrow>
                    let userId = uid user;
                        firstName = or_default (first_name user) ''User'';
                        txt = or_default (msg_text msg) [];
                        referralId = extract_v3 txt;
                        photoURL = photo e
                    in if \<not> getDoc_ok e
                       then \<lparr>response = Some (200, ''OK''), welcomed = [], final = s\<rparr>
                       else if \<not> setDoc_ok e
                       then \<lparr>response = Some (200, ''OK''), welcomed = [], final = s\<rparr>
                       else
                         let s1 = ensureUser_v3 userId firstName photoURL referralId s;
                             s2 = processReferralReward (txn_ok e) userId referralId s1
                         in \<lparr>response = Some (200, ''OK''),
                             welcomed = (if sendPhoto_ok e then [chatId] else []),
                             final = s2\<rparr>)))"

section \<open>One reward call, in each variant\<close>

datatype variant = V1 | V2 | V3

text \<open>
  The writes one reward call buffers for the user with the numeric id \<open>u\<close> and the token
  \<open>t\<close>. Variants 1 and 2 address the user by \<^verbatim>\<open>user.id.toString()\<close>; variant 3 does not
  start a transaction for a missing, empty or own token, which writes nothing.
\<close>

fun process_writes :: "variant \<Rightarrow> int \<Rightarrow> string option \<Rightarrow> store \<Rightarrow> error + write_op list" where
  "process_writes V1 u t s = txn_v1 (toString u) t s"
| "process_writes V2 u t s = txn_v2 (toString u) t s"
| "process_writes V3 u t s =
     (case t of
        None \<Rightarrow> Inr []
      | Some r \<Rightarrow> if r = [] \<or> r = toString u then Inr [] else reward_txn_v3 u r s)"

text \<open>
  The call run alone (the spec's \<^verbatim>\<open>process\<close>: the inline transaction of variants 1 and 2,
  \<open>processReferralReward\<close> in variant 3); \<open>ok = False\<close> is a transaction the store rejects.
\<close>

fun process :: "variant \<Rightarrow> bool \<Rightarrow> int \<Rightarrow> string option \<Rightarrow> store \<Rightarrow> store" where
  "process V1 ok u t s = snd (runTransaction ok (txn_v1 (toString u) t) s)"
| "process V2 ok u t s = snd (runTransaction ok (txn_v2 (toString u) t) s)"
| "process V3 ok u t s = processReferralReward ok u t s"

text \<open>A call issues the reward when its writes create the ledger entry.\<close>

fun is_reward :: "write_op \<Rightarrow> bool" where
  "is_reward (SetReward k e) = True"
| "is_reward _ = False"

definition rewarded :: "write_op list \<Rightarrow> bool" where
  "rewarded ws = list_ex is_reward ws"

text \<open>A run of calls, one after the other: each with its store flag, user and token.\<close>

definition process_all ::
  "variant \<Rightarrow> (bool \<times> int \<times> string option) list \<Rightarrow> store \<Rightarrow> store" where
  "process_all var calls s = foldl (\<lambda>s' (ok, u, t). process var ok u t s') s calls"

section \<open>Concurrent reward calls\<close>

text \<open>
  Modelled from the spec: the record store's side of a transaction, which is the Firestore
  service and not code of the repository. The spec describes it in sections 2, 4.2 (step
  6) and 5: a transaction reads documents, decides its writes from what it read, and
  commits them together only if no document it read was modified between the read and the
  commit; otherwise the whole body is run again, and after a bounded number of attempts
  the transaction fails without a write. The bodies are the ones of the source.

  The documents of \<^verbatim>\<open>users\<close> that a body reads, given what it finds there:
\<close>

fun read_keys :: "variant \<Rightarrow> int \<Rightarrow> string option \<Rightarrow> store \<Rightarrow> string list" where
  "read_keys V1 u t snap =
     toString u #
     (case users snap (toString u) of
        None \<Rightarrow> []
      | Some d \<Rightarrow>
          if truthy (d ''frontendOpened'') \<and> \<not> truthy (d ''rewardGiven'')
             \<and> truthy (d ''refferBy'')
          then (case doc_key (d ''refferBy'') of None \<Rightarrow> [] | Some rk \<Rightarrow> [rk])
          else [])"
| "read_keys V2 u t snap =
     toString u #
     (case users snap (toString u) of
        None \<Rightarrow> []
      | Some d \<Rightarrow>
          if truthy (finalReferrerId (toString u) t d) \<and> \<not> truthy (d ''rewardGiven'')
          then (case doc_key (finalReferrerId (toString u) t d) of
                  None \<Rightarrow> [] | Some rk \<Rightarrow> [rk])
          else [])"
| "read_keys V3 u t snap = [toString u]"

definition reads_unchanged :: "variant \<Rightarrow> int \<Rightarrow> string option \<Rightarrow> store \<Rightarrow> store \<Rightarrow> bool" where
  "reads_unchanged var u t snap s =
     list_all (\<lambda>k. users snap k = users s k) (read_keys var u t snap)"

text \<open>
  A document counts as unmodified when it is the same as when it was read, which allows
  every commit the store allows. A call is idle (before an attempt), has read the store
  as it was at some moment, has committed, or has failed for good. Several calls for the
  same user and token run interleaved: any idle call may read, any call that has read may
  commit if what it read still stands, and may at any time be sent back to retry, or fail
  (an error, or the last attempt used up).
\<close>

datatype call = Idle | Reading store | Committed | Failed

inductive step ::
  "variant \<Rightarrow> int \<Rightarrow> string option \<Rightarrow> store \<times> call list \<Rightarrow> store \<times> call list \<Rightarrow> bool"
  for var :: variant and u :: int and t :: "string option" where
  begin_read:
    "i < length cs \<Longrightarrow> cs ! i = Idle \<Longrightarrow> step var u t (s, cs) (s, cs[i := Reading s])"
| commit:
    "i < length cs \<Longrightarrow> cs ! i = Reading snap \<Longrightarrow> reads_unchanged var u t snap s \<Longrightarrow>
     process_writes var u t snap = Inr ws \<Longrightarrow> apply_writes ws s = Inr s' \<Longrightarrow>
     step var u t (s, cs) (s', cs[i := Committed])"
| retry:
    "i < length cs \<Longrightarrow> cs ! i = Reading snap \<Longrightarrow> step var u t (s, cs) (s, cs[i := Idle])"
| give_up:
    "i < length cs \<Longrightarrow> cs ! i = Reading snap \<Longrightarrow> step var u t (s, cs) (s, cs[i := Failed])"

text \<open>
  A reward is due to the referrer \<open>r\<close>, whose document holds \<open>c\<close> coins and \<open>n\<close> referrals:
  the user's document exists and is not rewarded, \<open>r\<close> is another user, and \<open>r\<close> is the
  effective referrer: the stored \<^verbatim>\<open>refferBy\<close> when it is set, else the token of the event.
  Variant 1 rewards only a record that already has its counters and its stored referrer
  (any other record makes its body throw). Variant 3 credits the user the token names,
  so there the token must name \<open>r\<close> as well; where it names somebody else, variant 3
  credits somebody else (see \<open>two_referrers_store\<close> below).
\<close>

fun reward_due :: "variant \<Rightarrow> int \<Rightarrow> string option \<Rightarrow> store \<Rightarrow> string \<Rightarrow> int \<Rightarrow> int \<Rightarrow> bool" where
  "reward_due V1 u t s r c n =
     (case users s (toString u) of
        None \<Rightarrow> False
      | Some d \<Rightarrow>
          d ''coins'' \<noteq> None \<and> d ''refferBy'' = Some (JStr r) \<and> truthy (d ''frontendOpened'')
          \<and> \<not> truthy (d ''rewardGiven'') \<and> r \<noteq> [] \<and> r \<noteq> toString u
          \<and> (case users s r of
                None \<Rightarrow> False
              | Some rd \<Rightarrow> rd ''coins'' = Some (JNum c) \<and> rd ''reffer'' = Some (JNum n)))"
| "reward_due V2 u t s r c n =
     (case users s (toString u) of
        None \<Rightarrow> False
      | Some d \<Rightarrow>
          finalReferrerId (toString u) t d = Some (JStr r)
          \<and> \<not> truthy (d ''rewardGiven'') \<and> r \<noteq> [] \<and> r \<noteq> toString u
          \<and> (case users s r of
                None \<Rightarrow> False
              | Some rd \<Rightarrow> rd ''coins'' = Some (JNum c) \<and> rd ''reffer'' = Some (JNum n)))"
| "reward_due V3 u t s r c n =
     (case users s (toString u) of
        None \<Rightarrow> False
      | Some d \<Rightarrow>
          (if truthy (d ''refferBy'') then d ''refferBy'' = Some (JStr r) else True)
          \<and> t = Some r
          \<and> d ''rewardGiven'' \<noteq> Some (JBool True) \<and> r \<noteq> [] \<and> r \<noteq> toString u
          \<and> (case users s r of
                None \<Rightarrow> False
              | Some rd \<Rightarrow> rd ''coins'' = Some (JNum c) \<and> rd ''reffer'' = Some (JNum n)))"

section \<open>Example data\<close>

definition env_ok :: env where
  "env_ok = \<lparr>photo = None, getDoc_ok = True, setDoc_ok = True, txn_ok = True,
             sendPhoto_ok = True\<rparr>"

definition empty_store :: store where
  "empty_store = \<lparr>users = Map.empty, ref_rewards = Map.empty\<rparr>"

text \<open>The referrer R1 of the scenario, with no coins and no referrals yet.\<close>

definition scenario_store :: store where
  "scenario_store =
     \<lparr>users = [''R1'' \<mapsto> [''id'' \<mapsto> JStr ''R1'', ''coins'' \<mapsto> JNum 0, ''reffer'' \<mapsto> JNum 0]],
      ref_rewards = Map.empty\<rparr>"

text \<open>A POST of a message with the text \<open>txt\<close>, from the user \<open>u\<close> in the private chat \<open>u\<close>.\<close>

definition start_request :: "int \<Rightarrow> string \<Rightarrow> request" where
  "start_request u txt =
     \<lparr>req_method = ''POST'',
      req_body = Some (Some \<lparr>msg_from = Some \<lparr>uid = u, first_name = Some ''Ann'',
                                                is_bot = False\<rparr>,
                             msg_chat = Some u, msg_text = Some txt\<rparr>)\<rparr>"

text \<open>A user who was rewarded before, with 7 coins, referred by R1.\<close>

definition store_42 :: store where
  "store_42 =
     \<lparr>users = [''42'' \<mapsto> [''id'' \<mapsto> JNum 42, ''name'' \<mapsto> JStr ''Old'', ''coins'' \<mapsto> JNum 7,
                            ''reffer'' \<mapsto> JNum 0, ''refferBy'' \<mapsto> JStr ''R1'',
                            ''rewardGiven'' \<mapsto> JBool True]],
      ref_rewards = Map.empty\<rparr>"

text \<open>
  The user 42 right after the merge-set of variants 1 and 2 created the record (identity
  fields only), alone in the store and next to the referrer R1.
\<close>

definition new_doc :: doc where
  "new_doc = [''id'' \<mapsto> JStr ''42'', ''name'' \<mapsto> JStr ''Ann'', ''photoURL'' \<mapsto> JNull,
              ''frontendOpened'' \<mapsto> JBool True]"

definition lone_store :: store where
  "lone_store = \<lparr>users = [''42'' \<mapsto> new_doc], ref_rewards = Map.empty\<rparr>"

definition referred_store :: store where
  "referred_store =
     \<lparr>users = [''R1'' \<mapsto> [''id'' \<mapsto> JStr ''R1'', ''coins'' \<mapsto> JNum 0, ''reffer'' \<mapsto> JNum 0],
               ''42'' \<mapsto> new_doc],
      ref_rewards = Map.empty\<rparr>"

text \<open>The user 42 attributed to R1 and not yet rewarded.\<close>

definition attributed_doc :: doc where
  "attributed_doc = [''id'' \<mapsto> JNum 42, ''coins'' \<mapsto> JNum 0, ''refferBy'' \<mapsto> JStr ''R1'',
                     ''rewardGiven'' \<mapsto> JBool False]"

definition attributed_store :: store where
  "attributed_store = \<lparr>users = [''42'' \<mapsto> attributed_doc], ref_rewards = Map.empty\<rparr>"

text \<open>The same user next to two possible referrers, R1 and R2, neither credited yet.\<close>

definition two_referrers_store :: store where
  "two_referrers_store =
     \<lparr>users = [''R1'' \<mapsto> [''id'' \<mapsto> JStr ''R1'', ''coins'' \<mapsto> JNum 0, ''reffer'' \<mapsto> JNum 0],
               ''R2'' \<mapsto> [''id'' \<mapsto> JStr ''R2'', ''coins'' \<mapsto> JNum 0, ''reffer'' \<mapsto> JNum 0],
               ''42'' \<mapsto> attributed_doc],
      ref_rewards = Map.empty\<rparr>"

section \<open>Which fields a write assigns\<close>

text \<open>Whether a write assigns the field \<open>f\<close> of the user \<open>k\<close> (a plain set replaces all).\<close>

fun touches :: "string \<Rightarrow> string \<Rightarrow> write_op \<Rightarrow> bool" where
  "touches k f (UpdateUser k' fs) = (k' = k \<and> f \<in> fst ` set fs)"
| "touches k f (SetMergeUser k' fs) = (k' = k \<and> f \<in> fst ` set fs)"
| "touches k f (SetUser k' fs) = (k' = k)"
| "touches k f (SetReward k' e) = False"

section \<open>Auxiliary notions for the concurrent runs\<close>

text \<open>The store with the user's \<^verbatim>\<open>rewardGiven\<close> set back to false, all else as it is.\<close>

definition clear_flag :: "int \<Rightarrow> store \<Rightarrow> store" where
  "clear_flag u s =
     (case users s (toString u) of
        None \<Rightarrow> s
      | Some d \<Rightarrow> s\<lparr>users := (users s)(toString u \<mapsto> d(''rewardGiven'' \<mapsto> JBool False))\<rparr>)"

text \<open>
  The invariant of a run that starts in \<open>s0\<close> where one commit leads to \<open>s1\<close>: the store is
  \<open>s0\<close> and no call has committed, or it is \<open>s1\<close> and one has; what a call has read is one
  of the two.
\<close>

definition inv_once :: "store \<Rightarrow> store \<Rightarrow> store \<times> call list \<Rightarrow> bool" where
  "inv_once s0 s1 cfg =
     (case cfg of (s, cs) \<Rightarrow>
        (s = s0 \<and> Committed \<notin> set cs \<and> (\<forall>snap. Reading snap \<in> set cs \<longrightarrow> snap = s0))
      \<or> (s = s1 \<and> Committed \<in> set cs
           \<and> (\<forall>snap. Reading snap \<in> set cs \<longrightarrow> snap = s0 \<or> snap = s1)))"

section \<open>Evaluation at concrete inputs\<close>

lemma toString_42: "toString 42 = ''42''"
  by code_simp

section \<open>Extracting the referral token\<close>

lemma split_on_no_sep: "c \<notin> set p \<Longrightarrow> split_on c p = [p]"
  by (induction p) auto

lemma split_on_unfold:
  "split_on c xs = takeWhile (\<lambda>x. x \<noteq> c) xs #
     (if c \<in> set xs then split_on c (tl (dropWhile (\<lambda>x. x \<noteq> c) xs)) else [])"
  by (induction xs) (auto split: list.splits)

lemma split_on_hd: "hd (split_on c xs) = takeWhile (\<lambda>x. x \<noteq> c) xs"
  by (subst split_on_unfold) simp

lemma split_on_ne: "split_on c p \<noteq> []"
  by (subst split_on_unfold) simp

lemma split_on_length: "length (split_on c xs) < 2 \<longleftrightarrow> c \<notin> set xs"
proof (cases "c \<in> set xs")
  case True
  have "length (split_on c xs) = Suc (length (split_on c (tl (dropWhile (\<lambda>x. x \<noteq> c) xs))))"
    using True by (subst split_on_unfold) simp
  moreover have "length (split_on c (tl (dropWhile (\<lambda>x. x \<noteq> c) xs))) > 0"
    using split_on_ne by blast
  ultimately show ?thesis using True by simp
next
  case False
  then show ?thesis by (simp add: split_on_no_sep)
qed

lemma split_on_second:
  assumes "c \<in> set xs"
  shows "split_on c xs ! Suc 0 = takeWhile (\<lambda>x. x \<noteq> c) (tl (dropWhile (\<lambda>x. x \<noteq> c) xs))"
proof -
  have "split_on c xs ! Suc 0 = hd (split_on c (tl (dropWhile (\<lambda>x. x \<noteq> c) xs)))"
    using assms split_on_ne[of c "tl (dropWhile (\<lambda>x. x \<noteq> c) xs)"]
    by (subst split_on_unfold) (simp add: hd_conv_nth)
  then show ?thesis by (simp add: split_on_hd)
qed

lemma replace_first_prefix:
  "startsWith p pat \<Longrightarrow> replace_first pat [] p = drop (length pat) p"
  by (cases p) (auto simp: startsWith_def)

text \<open>
  Claim C8, as amended. \<open>extractReferralId\<close> (variants 1 and 2) returns null when the text
  does not start with \<^verbatim>\<open>/start\<close> or holds no space. Otherwise the token is the text
  between the first and the second space, and a leading \<^verbatim>\<open>ref\<close> (three characters, no
  underscore) is removed from it.
\<close>

theorem extractReferralId_payload:
  "extractReferralId txt =
     (if startsWith txt ''/start'' \<and> CHR '' '' \<in> set txt
      then Some (let payload = takeWhile (\<lambda>c. c \<noteq> CHR '' '')
                                 (tl (dropWhile (\<lambda>c. c \<noteq> CHR '' '') txt))
                 in if startsWith payload ''ref'' then drop 3 payload else payload)
      else None)"
proof (cases "startsWith txt ''/start'' \<and> CHR '' '' \<in> set txt")
  case True
  then have ne: "txt \<noteq> []" by auto
  have len: "\<not> length (split_on CHR '' '' txt) < 2"
    using True by (simp add: split_on_length)
  show ?thesis
    using True ne len
    by (simp add: extractReferralId_def Let_def split_on_second replace_first_prefix
          numeral_3_eq_3)
next
  case False
  then show ?thesis
    by (auto simp: extractReferralId_def Let_def split_on_length)
qed

text \<open>
  Claim C8 as stated fails: the token \<^verbatim>\<open>ref_R1\<close> of the scenario does not give the
  referrer id R1. Only \<^verbatim>\<open>ref\<close> is removed, and the underscore stays.
\<close>

theorem extractReferralId_ref_underscore:
  "extractReferralId ''/start ref_R1'' = Some ''_R1'' \<and>
   extractReferralId ''/start ref_R1'' \<noteq> Some ''R1''"
  by (simp add: extractReferralId_def startsWith_def)

lemma extractReferralId_examples:
  "extractReferralId ''/start refR1'' = Some ''R1''"
  "extractReferralId ''/start R1'' = Some ''R1''"
  "extractReferralId ''/start'' = None"
  "extractReferralId ''/start '' = Some []"
  "extractReferralId ''hello ref1'' = None"
  by (simp_all add: extractReferralId_def startsWith_def)

text \<open>Variant 3 does not remove the prefix at all.\<close>

lemma extract_v3_keeps_prefix: "extract_v3 ''/start refR1'' = Some ''refR1''"
  by (simp add: extract_v3_def startsWith_def)

section \<open>Ensuring the user record\<close>

text \<open>
  Claim C9. For a user whose record exists, the merge-set of variants 1 and 2 and the
  existing-user branch of variant 3 keep the record and leave every field other than
  \<^verbatim>\<open>id\<close>, \<^verbatim>\<open>name\<close>, \<^verbatim>\<open>photoURL\<close> and \<^verbatim>\<open>frontendOpened\<close> as it was: so \<^verbatim>\<open>refferBy\<close>,
  \<^verbatim>\<open>rewardGiven\<close>, \<^verbatim>\<open>coins\<close>, \<^verbatim>\<open>reffer\<close>, \<^verbatim>\<open>tasksCompleted\<close> and \<^verbatim>\<open>totalWithdrawals\<close>
  are untouched. No other user's record and no ledger entry changes.
\<close>

theorem ensureUser_frame:
  assumes "f \<notin> {''id'', ''name'', ''photoURL'', ''frontendOpened''}"
    and "users s (toString u) = Some d"
  shows "\<exists>d1 d3.
           users (ensureUser_v1 (toString u) name p s) (toString u) = Some d1 \<and> d1 f = d f
         \<and> users (ensureUser_v3 u name p t s) (toString u) = Some d3 \<and> d3 f = d f
         \<and> (users (ensureUser_v1 (toString u) name p s))(toString u := None)
             = (users s)(toString u := None)
         \<and> (users (ensureUser_v3 u name p t s))(toString u := None)
             = (users s)(toString u := None)
         \<and> ref_rewards (ensureUser_v1 (toString u) name p s) = ref_rewards s
         \<and> ref_rewards (ensureUser_v3 u name p t s) = ref_rewards s"
  using assms
  by (auto simp: ensureUser_v1_def ensureUser_v3_def apply_fields_def baseData_def)

theorem ensureUser_frame_witness:
  "\<exists>d1 d3.
     users (ensureUser_v1 ''42'' ''Ann'' None store_42) ''42'' = Some d1
   \<and> d1 ''refferBy'' = Some (JStr ''R1'')
   \<and> users (ensureUser_v3 42 ''Ann'' None (Some ''R2'') store_42) ''42'' = Some d3
   \<and> d3 ''refferBy'' = Some (JStr ''R1'')"
proof -
  have f: "''refferBy'' \<notin> {''id'', ''name'', ''photoURL'', ''frontendOpened''}"
    by simp
  have d: "users store_42 (toString 42) =
             Some [''id'' \<mapsto> JNum 42, ''name'' \<mapsto> JStr ''Old'', ''coins'' \<mapsto> JNum 7,
                   ''reffer'' \<mapsto> JNum 0, ''refferBy'' \<mapsto> JStr ''R1'',
                   ''rewardGiven'' \<mapsto> JBool True]"
    by (simp add: store_42_def toString_42)
  show ?thesis
    using ensureUser_frame [OF f d, of "''Ann''" None "Some ''R2''"]
    unfolding toString_42 by fastforce
qed

text \<open>The unused \<open>createOrEnsureUser\<close> of variant 3 has the same frame.\<close>

lemma createOrEnsureUser_frame:
  assumes "f \<notin> {''id'', ''name'', ''photoURL'', ''frontendOpened''}"
    and "users s (toString u) = Some d"
  shows "\<exists>d'. users (createOrEnsureUser u name p t s) (toString u) = Some d' \<and> d' f = d f"
  using assms by (auto simp: createOrEnsureUser_def apply_fields_def)

section \<open>The handlers at failing inputs\<close>

text \<open>
  Claim C2 fails in variants 1 and 2. A new user 42 sends \<^verbatim>\<open>/start ref7\<close> and every
  service works: the transaction of variant 1 throws (it reads after writing), the shared
  \<^verbatim>\<open>catch\<close> answers Error, and no welcome message is sent. In variant 2 the same happens
  whenever the store rejects the transaction. Variant 3 catches the error inside
  \<open>processReferralReward\<close> and sends the welcome message.
\<close>

theorem welcome_lost_on_transaction_error:
  "welcomed (handler_v1 env_ok (start_request 42 ''/start ref7'') empty_store) = []
   \<and> response (handler_v1 env_ok (start_request 42 ''/start ref7'') empty_store)
       = Some (200, ''Error'')
   \<and> welcomed (handler_v2 (env_ok\<lparr>txn_ok := False\<rparr>) (start_request 42 ''/start ref7'')
       empty_store) = []
   \<and> welcomed (handler_v3 (env_ok\<lparr>txn_ok := False\<rparr>) (start_request 42 ''/start ref7'')
       empty_store) = [42]"
  by (simp add: handler_v1_def handler_v2_def handler_shell_def handler_v3_def env_ok_def
      start_request_def empty_store_def or_default_def startsWith_def runTransaction_def
      txn_v1_def ensureUser_v1_def apply_fields_def extractReferralId_def jstr_or_null_def
      Let_def)

text \<open>
  Claim C3 fails in variant 1 at the scenario itself: the new user U1, whose record the
  merge-set has just created, arrives with the token R1, and R1 exists. The body issues
  its first two updates and then reads again, the transaction throws, and nothing is
  written: no attribution, no credit, no ledger entry. Variant 2 applies the reward there.
\<close>

theorem scenario_fails_in_variant_1:
  "runTransaction True (txn_v1 ''U1'' (Some ''R1''))
       (ensureUser_v1 ''U1'' ''Ann'' None scenario_store)
     = (Inl ReadAfterWrite, ensureUser_v1 ''U1'' ''Ann'' None scenario_store)
   \<and> ref_rewards (ensureUser_v1 ''U1'' ''Ann'' None scenario_store) ''U1'' = None"
  by (simp add: runTransaction_def txn_v1_def ensureUser_v1_def scenario_store_def
      apply_fields_def jstr_or_null_def)

lemma scenario_holds_in_variant_2:
  "map_option (\<lambda>d. (d ''refferBy'', d ''rewardGiven''))
     (users (snd (runTransaction True (txn_v2 ''U1'' (Some ''R1''))
                    (ensureUser_v1 ''U1'' ''Ann'' None scenario_store))) ''U1'')
     = Some (Some (JStr ''R1''), Some (JBool True))
   \<and> map_option (\<lambda>d. (d ''coins'', d ''reffer''))
     (users (snd (runTransaction True (txn_v2 ''U1'' (Some ''R1''))
                    (ensureUser_v1 ''U1'' ''Ann'' None scenario_store))) ''R1'')
     = Some (Some (JNum 500), Some (JNum 1))
   \<and> ref_rewards (snd (runTransaction True (txn_v2 ''U1'' (Some ''R1''))
                    (ensureUser_v1 ''U1'' ''Ann'' None scenario_store))) ''U1''
     = Some \<lparr>r_userId = JStr ''U1'', r_referrerId = JStr ''R1'', r_reward = 500\<rparr>"
  by (simp add: runTransaction_def txn_v2_def finalReferrerId_def userUpdates_def
      ensureUser_v1_def scenario_store_def apply_fields_def jstr_or_null_def)

text \<open>
  Claim C4 fails in the handler of variant 3: the new user 42 sends \<^verbatim>\<open>/start 42\<close>, and
  the record is created with \<^verbatim>\<open>refferBy\<close> set to the user's own id.
\<close>

theorem self_referral_stored_on_creation:
  "map_option (\<lambda>d. d ''refferBy'')
     (users (final (handler_v3 env_ok (start_request 42 ''/start 42'') empty_store)) ''42'')
   = Some (Some (JStr ''42''))"
  by (simp add: handler_v3_def env_ok_def start_request_def Let_def toString_42
      empty_store_def ensureUser_v3_def processReferralReward_def extract_v3_def
      startsWith_def or_default_def apply_fields_def baseData_def jstr_or_null_def)

text \<open>
  Claim C10 fails in variant 3: a message without \<^verbatim>\<open>from\<close> makes the handler throw
  before its \<^verbatim>\<open>try\<close>, and it sends no response. Variants 1 and 2 answer 200 to it.
\<close>

theorem no_response_without_sender:
  "response (handler_v3 e \<lparr>req_method = ''POST'',
      req_body = Some (Some \<lparr>msg_from = None, msg_chat = Some 1,
                             msg_text = Some ''/start''\<rparr>)\<rparr> s) = None
   \<and> response (handler_v1 e \<lparr>req_method = ''POST'',
      req_body = Some (Some \<lparr>msg_from = None, msg_chat = Some 1,
                             msg_text = Some ''/start''\<rparr>)\<rparr> s) = Some (200, ''OK'')"
  by (simp add: handler_v3_def handler_v1_def handler_shell_def)

text \<open>Variants 1 and 2 answer every request with the status 200.\<close>

lemma handler_shell_always_200:
  "\<exists>b. response (handler_shell txn e req s) = Some (200, b)"
  by (auto simp: handler_shell_def Let_def split: option.splits sum.splits prod.splits)

section \<open>The writes of a reward call\<close>

lemma apply_fields_Nil [simp]: "apply_fields d [] = d"
  by (simp add: apply_fields_def)

lemma apply_fields_Cons [simp]: "apply_fields d (x # xs) = apply_fields (apply_field d x) xs"
  by (simp add: apply_fields_def)

lemma apply_fields_append [simp]:
  "apply_fields d (xs @ ys) = apply_fields (apply_fields d xs) ys"
  by (simp add: apply_fields_def)

lemma doc_key_Some: "doc_key v = Some rk \<longleftrightarrow> v = Some (JStr rk)"
  by (cases v rule: doc_key.cases) auto

lemma process_eq:
  "process var ok u t s =
     (if ok then (case process_writes var u t s of
                    Inl e \<Rightarrow> s
                  | Inr ws \<Rightarrow> (case apply_writes ws s of Inl e \<Rightarrow> s | Inr s' \<Rightarrow> s'))
      else s)"
  by (cases var)
     (auto simp: runTransaction_def processReferralReward_def split: sum.splits option.splits)

lemma v1_rewarded_inv:
  assumes "txn_v1 k t s = Inr ws" "rewarded ws"
  shows "\<exists>d rk rd. users s k = Some d \<and> d ''coins'' \<noteq> None \<and> \<not> truthy (d ''rewardGiven'')
          \<and> d ''refferBy'' = Some (JStr rk) \<and> rk \<noteq> [] \<and> users s rk = Some rd
          \<and> ws = [UpdateUser rk
                     [(''coins'', Put (or0_plus (rd ''coins'') 500)),
                      (''reffer'', Put (or0_plus (rd ''reffer'') 1))],
                   UpdateUser k [(''rewardGiven'', Put (JBool True))],
                   SetReward k \<lparr>r_userId = JStr k, r_referrerId = JStr rk, r_reward = 500\<rparr>]"
proof -
  from assms obtain d where d: "users s k = Some d"
    by (auto simp: txn_v1_def rewarded_def split: option.splits)
  from assms d have c: "d ''coins'' \<noteq> None"
    by (auto simp: txn_v1_def Let_def split: if_splits)
  from assms d c have g: "truthy (d ''frontendOpened'')" "\<not> truthy (d ''rewardGiven'')"
      "truthy (d ''refferBy'')"
    by (auto simp: txn_v1_def Let_def rewarded_def split: if_splits option.splits)
  from assms d c g obtain rk where rk: "doc_key (d ''refferBy'') = Some rk"
    by (auto simp: txn_v1_def Let_def split: if_splits option.splits)
  then have f: "d ''refferBy'' = Some (JStr rk)" by (simp add: doc_key_Some)
  with g have ne: "rk \<noteq> []" by simp
  from assms d c g rk obtain rd where rd: "users s rk = Some rd"
    by (auto simp: txn_v1_def Let_def rewarded_def split: if_splits option.splits)
  from assms d c g f ne rd show ?thesis
    by (auto simp: txn_v1_def Let_def split: if_splits option.splits)
qed

lemma v3_rewarded_inv:
  assumes "reward_txn_v3 u r s = Inr ws" "rewarded ws"
  shows "\<exists>d. users s (toString u) = Some d \<and> d ''rewardGiven'' \<noteq> Some (JBool True)
          \<and> ws = (if \<not> truthy (d ''refferBy'') \<and> r \<noteq> []
                   then [SetMergeUser (toString u) [(''refferBy'', Put (JStr r))]] else [])
                  @ [SetMergeUser r [(''coins'', Incr 500), (''reffer'', Incr 1)],
                     UpdateUser (toString u) [(''rewardGiven'', Put (JBool True))],
                     SetReward (toString u)
                       \<lparr>r_userId = JNum u,
                        r_referrerId = (if \<not> truthy (d ''refferBy'') \<and> r \<noteq> [] then JStr r
                                        else (case d ''refferBy'' of Some v \<Rightarrow> v | None \<Rightarrow> JNull)),
                        r_reward = 500\<rparr>]"
proof -
  from assms obtain d where d: "users s (toString u) = Some d"
    by (auto simp: reward_txn_v3_def rewarded_def split: option.splits)
  from assms d have c: "d ''rewardGiven'' \<noteq> Some (JBool True)"
    by (auto simp: reward_txn_v3_def rewarded_def split: if_splits)
  from assms d c show ?thesis
    by (auto simp: reward_txn_v3_def rewarded_def Let_def split: if_splits option.splits)
qed

lemma userUpdates_fields:
  "apply_fields d' (userUpdates k t d) ''refferBy'' =
     (if truthy (d ''refferBy'') then d' ''refferBy'' else
        if truthy (finalReferrerId k t d) then finalReferrerId k t d else d' ''refferBy'')"
  "apply_fields d' (userUpdates k t d) ''coins'' = (if d ''coins'' = None then Some (JNum 0) else d' ''coins'')"
  "apply_fields d' (userUpdates k t d) ''rewardGiven'' = (if d ''coins'' = None then Some (JBool False) else d' ''rewardGiven'')"
  by (auto simp: userUpdates_def split: option.splits)

lemma v2_rewarded_inv:
  assumes "txn_v2 k t s = Inr ws" "rewarded ws"
  shows "\<exists>d rk rd. users s k = Some d \<and> \<not> truthy (d ''rewardGiven'')
          \<and> finalReferrerId k t d = Some (JStr rk) \<and> rk \<noteq> [] \<and> users s rk = Some rd
          \<and> ws = [UpdateUser rk
                                   [(''coins'', Put (or0_plus (rd ''coins'') 500)),
                                    (''reffer'', Put (or0_plus (rd ''reffer'') 1))],
                                 SetReward k
                                   \<lparr>r_userId = JStr k,
                                    r_referrerId = JStr rk,
                                    r_reward = 500\<rparr>,
                                 UpdateUser k
                                   (userUpdates k t d @ [(''rewardGiven'', Put (JBool True))])]"
proof -
  from assms obtain d where d: "users s k = Some d"
    by (auto simp: txn_v2_def rewarded_def split: option.splits)
  have nr: "\<not> rewarded (commit_user k ups)" for ups
    by (simp add: commit_user_def rewarded_def)
  from assms d nr have c: "truthy (finalReferrerId k t d)" "\<not> truthy (d ''rewardGiven'')"
    by (auto simp: txn_v2_def Let_def split: if_splits)
  from assms d c obtain rk where rk: "doc_key (finalReferrerId k t d) = Some rk"
    by (auto simp: txn_v2_def Let_def split: option.splits)
  then have f: "finalReferrerId k t d = Some (JStr rk)"
    by (simp add: doc_key_Some)
  with c have ne: "rk \<noteq> []" by simp
  from assms d c rk nr obtain rd where rd: "users s rk = Some rd"
    by (auto simp: txn_v2_def Let_def split: option.splits)
  from assms d c rk rd f ne show ?thesis
    by (simp add: txn_v2_def Let_def)
qed

lemma no_writes_after_reward_v1:
  assumes "txn_v1 k t s = Inr ws" "rewarded ws" "apply_writes ws s = Inr s'"
  shows "txn_v1 k t s' = Inr []"
proof -
  from assms(1,2) obtain d rk rd where h: "users s k = Some d" "d ''coins'' \<noteq> None"
      "d ''refferBy'' = Some (JStr rk)" "rk \<noteq> []" "users s rk = Some rd"
      "ws = [UpdateUser rk
               [(''coins'', Put (or0_plus (rd ''coins'') 500)),
                (''reffer'', Put (or0_plus (rd ''reffer'') 1))],
             UpdateUser k [(''rewardGiven'', Put (JBool True))],
             SetReward k \<lparr>r_userId = JStr k, r_referrerId = JStr rk, r_reward = 500\<rparr>]"
    using v1_rewarded_inv[of k t s ws] by auto
  define d0 where "d0 = (if rk = k then rd(''coins'' \<mapsto> or0_plus (rd ''coins'') 500,
                           ''reffer'' \<mapsto> or0_plus (rd ''reffer'') 1) else d)"
  have s': "users s' k = Some (d0(''rewardGiven'' \<mapsto> JBool True))"
    using assms(3) h by (auto simp: d0_def)
  have same: "rk = k \<Longrightarrow> rd = d" using h by simp
  have t2: "d0 ''coins'' \<noteq> None" using same h by (auto simp: d0_def)
  have t3: "d0 ''refferBy'' = Some (JStr rk)" using same h by (auto simp: d0_def)
  show ?thesis
    using s' t2 t3 h(4) by (simp add: txn_v1_def Let_def split: option.splits)
qed

lemma no_writes_after_reward_v2:
  assumes "txn_v2 k t s = Inr ws" "rewarded ws" "apply_writes ws s = Inr s'"
  shows "txn_v2 k t s' = Inr []"
proof -
  from assms(1,2) obtain d rk rd where h: "users s k = Some d" "\<not> truthy (d ''rewardGiven'')"
      "finalReferrerId k t d = Some (JStr rk)" "rk \<noteq> []" "users s rk = Some rd"
      "ws = [UpdateUser rk
               [(''coins'', Put (or0_plus (rd ''coins'') 500)),
                (''reffer'', Put (or0_plus (rd ''reffer'') 1))],
             SetReward k \<lparr>r_userId = JStr k, r_referrerId = JStr rk, r_reward = 500\<rparr>,
             UpdateUser k (userUpdates k t d @ [(''rewardGiven'', Put (JBool True))])]"
    using v2_rewarded_inv[of k t s ws] by auto
  define d0 where "d0 = (if rk = k then rd(''coins'' \<mapsto> or0_plus (rd ''coins'') 500,
                           ''reffer'' \<mapsto> or0_plus (rd ''reffer'') 1) else d)"
  define d' where "d' = (apply_fields d0 (userUpdates k t d))(''rewardGiven'' \<mapsto> JBool True)"
  have s': "users s' k = Some d'"
    using assms(3) h by (auto simp: d'_def d0_def)
  have same: "rk = k \<Longrightarrow> rd = d" using h by simp
  have t1: "d' ''rewardGiven'' = Some (JBool True)" by (simp add: d'_def)
  have t2: "d' ''coins'' \<noteq> None"
    using same by (auto simp: d'_def d0_def userUpdates_fields)
  have t3: "truthy (d' ''refferBy'')"
    using h same by (auto simp: d'_def d0_def userUpdates_fields)
  have fin: "finalReferrerId k t d' = d' ''refferBy''"
    using t3 by (auto simp: finalReferrerId_def split: option.splits)
  have "userUpdates k t d' = []"
    using t2 t3 fin by (auto simp: userUpdates_def split: option.splits)
  then show ?thesis
    using s' t1 by (simp add: txn_v2_def Let_def commit_user_def)
qed

lemma no_writes_after_reward_v3:
  assumes "reward_txn_v3 u r s = Inr ws" "rewarded ws" "apply_writes ws s = Inr s'"
  shows "reward_txn_v3 u r s' = Inr []"
proof -
  from assms(1,2) obtain d where h: "users s (toString u) = Some d"
    and ws: "ws = (if \<not> truthy (d ''refferBy'') \<and> r \<noteq> []
                   then [SetMergeUser (toString u) [(''refferBy'', Put (JStr r))]] else [])
                  @ [SetMergeUser r [(''coins'', Incr 500), (''reffer'', Incr 1)],
                     UpdateUser (toString u) [(''rewardGiven'', Put (JBool True))],
                     SetReward (toString u)
                       \<lparr>r_userId = JNum u,
                        r_referrerId = (if \<not> truthy (d ''refferBy'') \<and> r \<noteq> [] then JStr r
                                        else (case d ''refferBy'' of Some v \<Rightarrow> v | None \<Rightarrow> JNull)),
                        r_reward = 500\<rparr>]"
    using v3_rewarded_inv[of u r s ws] by auto
  have "\<exists>d'. users s' (toString u) = Some d' \<and> d' ''rewardGiven'' = Some (JBool True)"
    using assms(3) h unfolding ws by (auto split: if_splits)
  then show ?thesis
    by (auto simp: reward_txn_v3_def)
qed

lemma no_writes_after_reward:
  assumes "process_writes var u t s = Inr ws" "rewarded ws" "apply_writes ws s = Inr s'"
  shows "process_writes var u t s' = Inr []"
proof (cases var)
  case V1
  then show ?thesis using assms no_writes_after_reward_v1 by simp
next
  case V2
  then show ?thesis using assms no_writes_after_reward_v2 by simp
next
  case V3
  show ?thesis
  proof (cases t)
    case None
    then show ?thesis using V3 by simp
  next
    case (Some r)
    then show ?thesis
      using V3 assms no_writes_after_reward_v3[of u r s ws s']
      by (auto split: if_splits)
  qed
qed

lemma process_no_writes: "process_writes var u t s = Inr [] \<Longrightarrow> process var ok u t s = s"
  by (simp add: process_eq)

lemma process_all_no_writes:
  "process_writes var u t s = Inr [] \<Longrightarrow>
   process_all var (map (\<lambda>ok. (ok, u, t)) oks) s = s"
  by (induction oks) (simp_all add: process_all_def process_no_writes)

section \<open>Repeating a call after the reward\<close>

text \<open>
  Claim C7. The code returns no outcome value; a call was Rewarded when the writes it
  committed create the ledger entry. After such a call, in each variant, a call with the
  same user and token buffers no write at all, so it leaves the store (the user's record,
  the referrer's record and the ledger) as it is, and so does any number of further calls,
  whether the store accepts them or not.
\<close>

theorem repeat_after_reward:
  assumes "process_writes var u t s = Inr ws" and "rewarded ws"
    and "apply_writes ws s = Inr s'"
  shows "process_writes var u t s' = Inr []
       \<and> process var ok u t s' = s'
       \<and> process_all var (map (\<lambda>ok. (ok, u, t)) oks) s' = s'"
  using no_writes_after_reward [OF assms] process_no_writes process_all_no_writes
  by simp

theorem repeat_after_reward_witness:
  "process_writes V2 42 (Some ''R1'') (process V2 True 42 (Some ''R1'') referred_store) = Inr []
   \<and> process_writes V3 42 (Some ''R1'') (process V3 True 42 (Some ''R1'') referred_store) = Inr []
   \<and> process_all V2 [(True, 42, Some ''R1''), (False, 42, Some ''R1'')]
        (process V2 True 42 (Some ''R1'') referred_store)
      = process V2 True 42 (Some ''R1'') referred_store"
proof -
  let ?ws2 = "[UpdateUser ''R1'' [(''coins'', Put (JNum 500)), (''reffer'', Put (JNum 1))],
               SetReward ''42'' \<lparr>r_userId = JStr ''42'', r_referrerId = JStr ''R1'', r_reward = 500\<rparr>,
               UpdateUser ''42''
                 [(''coins'', Put (JNum 0)), (''reffer'', Put (JNum 0)),
                  (''tasksCompleted'', Put (JNum 0)), (''totalWithdrawals'', Put (JNum 0)),
                  (''rewardGiven'', Put (JBool False)), (''refferBy'', Put (JStr ''R1'')),
                  (''rewardGiven'', Put (JBool True))]]"
  let ?ws3 = "[SetMergeUser ''42'' [(''refferBy'', Put (JStr ''R1''))],
               SetMergeUser ''R1'' [(''coins'', Incr 500), (''reffer'', Incr 1)],
               UpdateUser ''42'' [(''rewardGiven'', Put (JBool True))],
               SetReward ''42'' \<lparr>r_userId = JNum 42, r_referrerId = JStr ''R1'', r_reward = 500\<rparr>]"
  have w2: "process_writes V2 42 (Some ''R1'') referred_store = Inr ?ws2"
    by (simp add: toString_42 txn_v2_def finalReferrerId_def userUpdates_def referred_store_def
          new_doc_def)
  have r2: "rewarded ?ws2" by (simp add: rewarded_def)
  have a2: "apply_writes ?ws2 referred_store = Inr (process V2 True 42 (Some ''R1'') referred_store)"
    using w2 by (simp add: process_eq referred_store_def split: sum.splits)
  have w3: "process_writes V3 42 (Some ''R1'') referred_store = Inr ?ws3"
    by (simp add: toString_42 reward_txn_v3_def referred_store_def new_doc_def)
  have r3: "rewarded ?ws3" by (simp add: rewarded_def)
  have a3: "apply_writes ?ws3 referred_store = Inr (process V3 True 42 (Some ''R1'') referred_store)"
    using w3 by (simp add: process_eq referred_store_def split: sum.splits)
  show ?thesis
    using repeat_after_reward [OF w2 r2 a2, of True "[True, False]"]
          repeat_after_reward [OF w3 r3 a3, of True "[]"]
    by simp
qed

section \<open>Attribution is written once\<close>

lemma apply_field_other: "g \<noteq> f \<Longrightarrow> apply_field d (g, v) f = d f"
  by (cases v) simp_all

lemma apply_fields_other: "f \<notin> fst ` set fs \<Longrightarrow> apply_fields d fs f = d f"
proof (induction fs arbitrary: d)
  case Nil
  then show ?case by simp
next
  case (Cons x xs)
  obtain g v where x: "x = (g, v)" by (cases x)
  from Cons.prems x have g: "g \<noteq> f" and rest: "f \<notin> fst ` set xs" by auto
  have "apply_fields d (x # xs) f = apply_fields (apply_field d x) xs f" by simp
  also have "\<dots> = apply_field d x f" using rest by (rule Cons.IH)
  also have "\<dots> = d f" using g x by (simp add: apply_field_other)
  finally show ?case .
qed

lemma apply_write_untouched:
  assumes "apply_write w s = Inr s'" "users s k = Some d" "\<not> touches k f w"
  shows "\<exists>d'. users s' k = Some d' \<and> d' f = d f"
  using assms
  by (cases w) (auto simp: apply_fields_other split: option.splits)

lemma apply_writes_untouched:
  assumes "apply_writes ws s = Inr s'" "users s k = Some d" "\<not> list_ex (touches k f) ws"
  shows "\<exists>d'. users s' k = Some d' \<and> d' f = d f"
  using assms
proof (induction ws arbitrary: s d)
  case Nil
  then show ?case by simp
next
  case (Cons w ws)
  from Cons.prems(1) obtain s1 where s1: "apply_write w s = Inr s1" "apply_writes ws s1 = Inr s'"
    by (auto split: sum.splits)
  from Cons.prems have nt: "\<not> touches k f w" "\<not> list_ex (touches k f) ws" by auto
  from apply_write_untouched[OF s1(1) Cons.prems(2) nt(1)]
  obtain d1 where d1: "users s1 k = Some d1" "d1 f = d f" by auto
  from Cons.IH[OF s1(2) d1(1) nt(2)] d1(2) show ?case by auto
qed

lemma userUpdates_no_refferBy:
  "truthy (d ''refferBy'') \<Longrightarrow> ''refferBy'' \<notin> fst ` set (userUpdates k t d)"
  by (auto simp: userUpdates_def split: option.splits)

lemma v1_keeps_refferBy:
  assumes "txn_v1 k2 t s = Inr ws" "users s k = Some d" "truthy (d ''refferBy'')"
  shows "\<not> list_ex (touches k ''refferBy'') ws"
  using assms
  by (auto simp: txn_v1_def Let_def split: option.splits if_splits)

lemma v2_keeps_refferBy:
  assumes "txn_v2 k2 t s = Inr ws" "users s k = Some d" "truthy (d ''refferBy'')"
  shows "\<not> list_ex (touches k ''refferBy'') ws"
proof (cases "k2 = k")
  case True
  have "''refferBy'' \<notin> fst ` set (userUpdates k t d)"
    using assms(3) by (rule userUpdates_no_refferBy)
  then show ?thesis
    using assms True
    by (auto simp: txn_v2_def Let_def commit_user_def split: option.splits if_splits)
next
  case False
  then show ?thesis
    using assms
    by (auto simp: txn_v2_def Let_def commit_user_def split: option.splits if_splits)
qed

lemma v3_keeps_refferBy:
  assumes "reward_txn_v3 u2 r s = Inr ws" "users s k = Some d" "truthy (d ''refferBy'')"
  shows "\<not> list_ex (touches k ''refferBy'') ws"
  using assms
  by (auto simp: reward_txn_v3_def Let_def split: option.splits if_splits)

lemma process_writes_keep_refferBy:
  assumes "process_writes var u2 t s = Inr ws" "users s k = Some d" "truthy (d ''refferBy'')"
  shows "\<not> list_ex (touches k ''refferBy'') ws"
proof (cases var)
  case V1
  then show ?thesis using assms v1_keeps_refferBy by simp
next
  case V2
  then show ?thesis using assms v2_keeps_refferBy by simp
next
  case V3
  show ?thesis
  proof (cases t)
    case None
    then show ?thesis using V3 assms by simp
  next
    case (Some r)
    then show ?thesis
      using V3 assms v3_keeps_refferBy[of u2 r s ws k d]
      by (auto split: if_splits)
  qed
qed

lemma process_keeps_refferBy:
  assumes "users s k = Some d" "truthy (d ''refferBy'')"
  shows "\<exists>d'. users (process var ok u2 t s) k = Some d' \<and> d' ''refferBy'' = d ''refferBy''"
proof (cases "process_writes var u2 t s")
  case (Inl e)
  then show ?thesis using assms by (simp add: process_eq)
next
  case (Inr ws)
  show ?thesis
  proof (cases "apply_writes ws s")
    case (Inl e)
    then show ?thesis using Inr assms by (simp add: process_eq)
  next
    case inr: (Inr s')
    from apply_writes_untouched[OF inr assms(1) process_writes_keep_refferBy[OF Inr assms]]
    show ?thesis using Inr inr assms by (auto simp: process_eq)
  qed
qed

text \<open>
  A call whose token is the user's own id assigns \<^verbatim>\<open>refferBy\<close> of no user, in each
  variant: the self-referral check of the reward call.
\<close>

lemma self_token_sets_no_referrer:
  assumes "process_writes var u (Some (toString u)) s = Inr ws"
  shows "\<not> list_ex (touches k ''refferBy'') ws"
proof (cases var)
  case V1
  then show ?thesis
    using assms by (auto simp: txn_v1_def Let_def split: option.splits if_splits)
next
  case V2
  have "''refferBy'' \<notin> fst ` set (userUpdates (toString u) (Some (toString u)) d)" for d
    by (auto simp: userUpdates_def finalReferrerId_def split: option.splits)
  then show ?thesis
    using V2 assms
    by (auto simp: txn_v2_def Let_def commit_user_def split: option.splits if_splits)
next
  case V3
  then show ?thesis using assms by simp
qed

text \<open>
  Claim C6. Once a user's \<^verbatim>\<open>refferBy\<close> holds a referrer id (a non-empty string), no run of
  reward calls changes it: calls of any variant, for this or any other user, with any
  tokens, accepted or rejected by the store.
\<close>

theorem refferBy_write_once:
  assumes "users s k = Some d" and "d ''refferBy'' = Some (JStr r)" and "r \<noteq> []"
  shows "\<exists>d'. users (process_all var calls s) k = Some d' \<and> d' ''refferBy'' = Some (JStr r)"
  using assms(1,2)
proof (induction calls arbitrary: s d)
  case Nil
  then show ?case by (simp add: process_all_def)
next
  case (Cons c calls)
  obtain ok u2 t where c: "c = (ok, u2, t)" by (cases c)
  have "truthy (d ''refferBy'')" using Cons.prems(2) assms(3) by simp
  from process_keeps_refferBy[OF Cons.prems(1) this, of var ok u2 t]
  obtain d1 where d1: "users (process var ok u2 t s) k = Some d1"
      "d1 ''refferBy'' = Some (JStr r)"
    using Cons.prems(2) by auto
  from Cons.IH[OF d1] show ?case
    using c by (simp add: process_all_def)
qed

theorem refferBy_write_once_witness:
  "(\<exists>d'. users (process_all V3 [(True, 42, Some ''R2''), (True, 42, Some ''R3'')] attributed_store)
            ''42'' = Some d' \<and> d' ''refferBy'' = Some (JStr ''R1''))
   \<and> (\<exists>d'. users (process_all V2 [(True, 42, Some ''R2''), (True, 7, Some ''42'')] attributed_store)
            ''42'' = Some d' \<and> d' ''refferBy'' = Some (JStr ''R1''))"
proof -
  have u: "users attributed_store ''42'' = Some attributed_doc"
    by (simp add: attributed_store_def)
  have r: "attributed_doc ''refferBy'' = Some (JStr ''R1'')"
    by (simp add: attributed_doc_def)
  have ne: "''R1'' \<noteq> []" by simp
  show ?thesis
    using refferBy_write_once [OF u r ne, of V3 "[(True, 42, Some ''R2''), (True, 42, Some ''R3'')]"]
          refferBy_write_once [OF u r ne, of V2 "[(True, 42, Some ''R2''), (True, 7, Some ''42'')]"]
    by simp
qed

section \<open>A referrer without a record\<close>

lemma v2_missing_referrer_writes:
  assumes "users s k = Some d" "\<not> truthy (d ''rewardGiven'')"
    and "finalReferrerId k t d = Some (JStr r)" "r \<noteq> []" "users s r = None"
  shows "txn_v2 k t s = Inr (commit_user k (userUpdates k t d))"
  using assms by (simp add: txn_v2_def Let_def)

lemma v2_reward_writes:
  assumes "users s k = Some d" "\<not> truthy (d ''rewardGiven'')"
    and "finalReferrerId k t d = Some (JStr r)" "r \<noteq> []" "users s r = Some rd"
  shows "txn_v2 k t s =
           Inr [UpdateUser r [(''coins'', Put (or0_plus (rd ''coins'') 500)),
                              (''reffer'', Put (or0_plus (rd ''reffer'') 1))],
                SetReward k \<lparr>r_userId = JStr k, r_referrerId = JStr r, r_reward = 500\<rparr>,
                UpdateUser k (userUpdates k t d @ [(''rewardGiven'', Put (JBool True))])]"
  using assms by (simp add: txn_v2_def Let_def)

lemma v1_missing_referrer:
  assumes "users s k = Some d" "finalReferrerId k t d = Some (JStr r)" "users s r = None"
  shows "snd (runTransaction ok (txn_v1 k t) s) = s"
proof (cases "txn_v1 k t s")
  case (Inl e)
  then show ?thesis by (simp add: runTransaction_def)
next
  case (Inr ws)
  have "ws = []"
    using Inr assms
    by (auto simp: txn_v1_def finalReferrerId_def Let_def doc_key_Some
             split: option.splits if_splits)
  then show ?thesis using Inr by (simp add: runTransaction_def)
qed

lemma finalReferrerId_after_updates:
  assumes "finalReferrerId k t d = Some (JStr r)" "r \<noteq> []"
    and "d' ''refferBy'' = (if truthy (d ''refferBy'') then d ''refferBy'' else Some (JStr r))
         \<or> d' ''refferBy'' = d ''refferBy''"
  shows "finalReferrerId k t d' = Some (JStr r)"
  using assms
  by (auto simp: finalReferrerId_def split: option.splits if_splits)

text \<open>
  Claim C5, as amended. The user \<open>k\<close> is not rewarded yet and the effective referrer \<open>r\<close>
  has no record. Then the transaction of variant 1 writes nothing. The transaction of
  variant 2 creates no ledger entry and no record for \<open>r\<close>, changes no other user, and
  leaves \<^verbatim>\<open>rewardGiven\<close> of \<open>k\<close> not true; it may write the user's own defaults and
  \<^verbatim>\<open>refferBy\<close>. Once \<open>r\<close> has a record \<open>rd\<close>, a retry with the same token issues the reward.
\<close>

theorem missing_referrer_no_reward:
  assumes "users s k = Some d" and "\<not> truthy (d ''rewardGiven'')"
    and "finalReferrerId k t d = Some (JStr r)" and "r \<noteq> []" and "users s r = None"
  shows "snd (runTransaction ok (txn_v1 k t) s) = s
       \<and> ref_rewards (snd (runTransaction ok (txn_v2 k t) s)) = ref_rewards s
       \<and> users (snd (runTransaction ok (txn_v2 k t) s)) r = None
       \<and> (users (snd (runTransaction ok (txn_v2 k t) s)))(k := None) = (users s)(k := None)
       \<and> (\<exists>d'. users (snd (runTransaction ok (txn_v2 k t) s)) k = Some d'
               \<and> \<not> truthy (d' ''rewardGiven''))
       \<and> (\<exists>ws. txn_v2 k t
                  ((snd (runTransaction ok (txn_v2 k t) s))
                     \<lparr>users := (users (snd (runTransaction ok (txn_v2 k t) s)))(r \<mapsto> rd)\<rparr>)
                  = Inr ws \<and> rewarded ws)"
proof -
  define s' where "s' = snd (runTransaction ok (txn_v2 k t) s)"
  have rk: "r \<noteq> k" using assms(1,5) by auto
  have w: "txn_v2 k t s = Inr (commit_user k (userUpdates k t d))"
    using assms by (rule v2_missing_referrer_writes)
  have cases: "s' = s \<or> s' = s\<lparr>users := (users s)(k \<mapsto> apply_fields d (userUpdates k t d))\<rparr>"
    using w assms(1) by (auto simp: s'_def runTransaction_def commit_user_def)
  then obtain d' where d': "users s' k = Some d'"
      "d' = d \<or> d' = apply_fields d (userUpdates k t d)"
    using assms(1) by auto
  have led: "ref_rewards s' = ref_rewards s" using cases by auto
  have ref: "users s' r = None" using cases assms(5) rk by auto
  have oth: "(users s')(k := None) = (users s)(k := None)" using cases by auto
  have rg: "\<not> truthy (d' ''rewardGiven'')"
    using d'(2) assms(2) by (auto simp: userUpdates_fields split: if_splits)
  have "d' ''refferBy'' = (if truthy (d ''refferBy'') then d ''refferBy'' else Some (JStr r))
         \<or> d' ''refferBy'' = d ''refferBy''"
    using d'(2) assms(3,4) by (auto simp: userUpdates_fields)
  with assms(3,4) have fin: "finalReferrerId k t d' = Some (JStr r)"
    by (rule finalReferrerId_after_updates)
  have "users (s'\<lparr>users := (users s')(r \<mapsto> rd)\<rparr>) k = Some d'"
    using d'(1) rk by simp
  moreover have "users (s'\<lparr>users := (users s')(r \<mapsto> rd)\<rparr>) r = Some rd" by simp
  ultimately have "\<exists>ws. txn_v2 k t (s'\<lparr>users := (users s')(r \<mapsto> rd)\<rparr>) = Inr ws \<and> rewarded ws"
    using v2_reward_writes[OF _ rg fin assms(4)] by (simp add: rewarded_def)
  then show ?thesis
    using v1_missing_referrer[OF assms(1,3,5)] led ref oth d'(1) rg
    unfolding s'_def by blast
qed

theorem missing_referrer_no_reward_witness:
  "snd (runTransaction True (txn_v1 ''42'' (Some ''R1'')) lone_store) = lone_store
   \<and> ref_rewards (snd (runTransaction True (txn_v2 ''42'' (Some ''R1'')) lone_store)) = Map.empty
   \<and> users (snd (runTransaction True (txn_v2 ''42'' (Some ''R1'')) lone_store)) ''R1'' = None
   \<and> (\<exists>d'. users (snd (runTransaction True (txn_v2 ''42'' (Some ''R1'')) lone_store)) ''42'' = Some d'
            \<and> \<not> truthy (d' ''rewardGiven''))"
proof -
  have u: "users lone_store ''42'' = Some new_doc" by (simp add: lone_store_def)
  have g: "\<not> truthy (new_doc ''rewardGiven'')" by (simp add: new_doc_def)
  have f: "finalReferrerId ''42'' (Some ''R1'') new_doc = Some (JStr ''R1'')"
    by (simp add: finalReferrerId_def new_doc_def)
  have ne: "''R1'' \<noteq> []" by simp
  have m: "users lone_store ''R1'' = None" by (simp add: lone_store_def)
  have e: "ref_rewards lone_store = Map.empty" by (simp add: lone_store_def)
  show ?thesis
    using missing_referrer_no_reward [OF u g f ne m, of True Map.empty] e
    by simp
qed

text \<open>
  Claim C5 as stated fails in variant 2: R1 has no record, and the transaction still
  writes the user's defaults and \<^verbatim>\<open>refferBy\<close>.
\<close>

theorem missing_referrer_still_writes:
  "users lone_store ''R1'' = None
   \<and> txn_v2 ''42'' (Some ''R1'') lone_store =
       Inr [UpdateUser ''42''
              [(''coins'', Put (JNum 0)), (''reffer'', Put (JNum 0)),
               (''tasksCompleted'', Put (JNum 0)), (''totalWithdrawals'', Put (JNum 0)),
               (''rewardGiven'', Put (JBool False)), (''refferBy'', Put (JStr ''R1''))]]
   \<and> map_option (\<lambda>d. d ''refferBy'') (users lone_store ''42'') = Some None
   \<and> map_option (\<lambda>d. d ''refferBy'')
        (users (snd (runTransaction True (txn_v2 ''42'' (Some ''R1'')) lone_store)) ''42'')
       = Some (Some (JStr ''R1''))"
  by (simp add: runTransaction_def txn_v2_def finalReferrerId_def userUpdates_def
      commit_user_def lone_store_def new_doc_def)

text \<open>
  Variant 3 has no check that the referrer exists: it creates the record of R1 with 500
  coins, marks the user rewarded and writes the ledger entry.
\<close>

lemma variant_3_credits_missing_referrer:
  "map_option (\<lambda>d. (d ''coins'', d ''reffer''))
     (users (processReferralReward True 42 (Some ''R1'') lone_store) ''R1'')
     = Some (Some (JNum 500), Some (JNum 1))
   \<and> map_option r_reward (ref_rewards (processReferralReward True 42 (Some ''R1'') lone_store) ''42'')
     = Some 500"
  by (simp add: processReferralReward_def runTransaction_def reward_txn_v3_def toString_42
      lone_store_def new_doc_def)

section \<open>Variant 3 misses the single reward\<close>

lemma createUser_v3_is_new_branch:
  "users s (toString u) = None \<Longrightarrow>
   ensureUser_v3 u name p t s = createUser_v3 u name p t s"
  by (simp add: ensureUser_v3_def createUser_v3_def)

text \<open>
  Claim C1 fails in variant 3, in two ways.

  First, \<open>processReferralReward\<close> addresses the referrer by the token of the event, not by
  the effective referrer. The user 42 is attributed to R1 and not rewarded yet, and sends
  \<^verbatim>\<open>/start R2\<close>: one call leaves R1, whom \<^verbatim>\<open>refferBy\<close> and the ledger entry name, with no
  coins and no referral, and gives the 500 coins and the referral to R2. Variant 2 credits
  R1 there.

  Second, the guard is not only the flag read in the transaction: the handler creates
  the record with a plain \<^verbatim>\<open>setDoc\<close> after a separate read. Two deliveries of
  \<^verbatim>\<open>/start R1\<close> from the new user 42 both find no record; the first creates it and is
  rewarded, then the second replaces the record (\<^verbatim>\<open>rewardGiven\<close> false again) and is
  rewarded too: R1 ends with 1000 coins and two referrals.
\<close>

theorem variant_3_misses_single_reward:
  "map_option (\<lambda>d. (d ''refferBy'', d ''rewardGiven''))
     (users (processReferralReward True 42 (Some ''R2'') two_referrers_store) ''42'')
     = Some (Some (JStr ''R1''), Some (JBool True))
   \<and> ref_rewards (processReferralReward True 42 (Some ''R2'') two_referrers_store) ''42''
     = Some \<lparr>r_userId = JNum 42, r_referrerId = JStr ''R1'', r_reward = 500\<rparr>
   \<and> map_option (\<lambda>d. (d ''coins'', d ''reffer''))
     (users (processReferralReward True 42 (Some ''R2'') two_referrers_store) ''R1'')
     = Some (Some (JNum 0), Some (JNum 0))
   \<and> map_option (\<lambda>d. (d ''coins'', d ''reffer''))
     (users (processReferralReward True 42 (Some ''R2'') two_referrers_store) ''R2'')
     = Some (Some (JNum 500), Some (JNum 1))
   \<and> map_option (\<lambda>d. (d ''coins'', d ''reffer''))
     (users (process V2 True 42 (Some ''R2'') two_referrers_store) ''R1'')
     = Some (Some (JNum 500), Some (JNum 1))
   \<and> users scenario_store ''42'' = None
   \<and> map_option (\<lambda>d. (d ''coins'', d ''reffer''))
     (users
        (processReferralReward True 42 (Some ''R1'')
           (createUser_v3 42 ''Ann'' None (Some ''R1'')
              (processReferralReward True 42 (Some ''R1'')
                 (ensureUser_v3 42 ''Ann'' None (Some ''R1'') scenario_store))))
        ''R1'')
     = Some (Some (JNum 1000), Some (JNum 2))"
  by (simp add: processReferralReward_def runTransaction_def reward_txn_v3_def
      txn_v2_def finalReferrerId_def userUpdates_def commit_user_def
      ensureUser_v3_def createUser_v3_def baseData_def jstr_or_null_def apply_fields_def
      two_referrers_store_def attributed_doc_def scenario_store_def toString_42)

section \<open>Exactly one reward under concurrent calls\<close>

lemma reward_due_v1:
  assumes "reward_due V1 u t s r c n"
  shows "\<exists>ws s1. process_writes V1 u t s = Inr ws \<and> rewarded ws \<and> apply_writes ws s = Inr s1
           \<and> users s1 (toString u) \<noteq> users s (toString u)
           \<and> (\<exists>rd'. users s1 r = Some rd' \<and> rd' ''coins'' = Some (JNum (c + 500))
                     \<and> rd' ''reffer'' = Some (JNum (n + 1)))
           \<and> (\<exists>e. ref_rewards s1 (toString u) = Some e \<and> r_reward e = 500
                   \<and> r_referrerId e = JStr r)
           \<and> reward_due V1 u t (clear_flag u s1) r (c + 500) (n + 1)"
proof -
  from assms obtain d where d: "users s (toString u) = Some d"
    by (auto split: option.splits)
  from assms d obtain rd where rd: "users s r = Some rd"
    by (auto split: option.splits)
  from assms d rd have h: "d ''coins'' \<noteq> None"
      "d ''refferBy'' = Some (JStr r)" "truthy (d ''frontendOpened'')"
      "\<not> truthy (d ''rewardGiven'')" "r \<noteq> []" "r \<noteq> toString u"
      "rd ''coins'' = Some (JNum c)" "rd ''reffer'' = Some (JNum n)"
    by simp_all
  let ?ws = "[UpdateUser r [(''coins'', Put (JNum (c + 500))), (''reffer'', Put (JNum (n + 1)))],
              UpdateUser (toString u) [(''rewardGiven'', Put (JBool True))],
              SetReward (toString u)
                \<lparr>r_userId = JStr (toString u), r_referrerId = JStr r, r_reward = 500\<rparr>]"
  let ?s1 = "s\<lparr>users := (users s)(r \<mapsto> rd(''coins'' \<mapsto> JNum (c + 500), ''reffer'' \<mapsto> JNum (n + 1)),
                               toString u \<mapsto> d(''rewardGiven'' \<mapsto> JBool True)),
               ref_rewards := (ref_rewards s)(toString u \<mapsto>
                  \<lparr>r_userId = JStr (toString u), r_referrerId = JStr r, r_reward = 500\<rparr>)\<rparr>"
  have w: "process_writes V1 u t s = Inr ?ws"
    using d rd h by (simp add: txn_v1_def Let_def split: option.splits)
  have r: "rewarded ?ws" by (simp add: rewarded_def)
  have a: "apply_writes ?ws s = Inr ?s1"
    using d rd h(6) by simp
  have "d(''rewardGiven'' \<mapsto> JBool True) \<noteq> d"
    using h(4) by (metis fun_upd_same truthy.simps(3))
  then have ne: "users ?s1 (toString u) \<noteq> users s (toString u)"
    using d by simp
  have c: "\<exists>rd'. users ?s1 r = Some rd' \<and> rd' ''coins'' = Some (JNum (c + 500))
                     \<and> rd' ''reffer'' = Some (JNum (n + 1))"
    using h(6) by simp
  have e: "\<exists>e. ref_rewards ?s1 (toString u) = Some e \<and> r_reward e = 500
                   \<and> r_referrerId e = JStr r"
    by simp
  have g: "reward_due V1 u t (clear_flag u ?s1) r (c + 500) (n + 1)"
    using h by (simp add: clear_flag_def)
  show ?thesis
    by (rule exI[of _ ?ws], rule exI[of _ ?s1]) (intro conjI w r a ne c e g)
qed


lemma reward_due_v2:
  assumes "reward_due V2 u t s r c n"
  shows "\<exists>ws s1. process_writes V2 u t s = Inr ws \<and> rewarded ws \<and> apply_writes ws s = Inr s1
           \<and> users s1 (toString u) \<noteq> users s (toString u)
           \<and> (\<exists>rd'. users s1 r = Some rd' \<and> rd' ''coins'' = Some (JNum (c + 500))
                     \<and> rd' ''reffer'' = Some (JNum (n + 1)))
           \<and> (\<exists>e. ref_rewards s1 (toString u) = Some e \<and> r_reward e = 500
                   \<and> r_referrerId e = JStr r)
           \<and> reward_due V2 u t (clear_flag u s1) r (c + 500) (n + 1)"
proof -
  from assms obtain d where d: "users s (toString u) = Some d"
    by (auto split: option.splits)
  from assms d obtain rd where rd: "users s r = Some rd"
    by (auto split: option.splits)
  from assms d rd have h: "finalReferrerId (toString u) t d = Some (JStr r)"
      "\<not> truthy (d ''rewardGiven'')" "r \<noteq> []" "r \<noteq> toString u"
      "rd ''coins'' = Some (JNum c)" "rd ''reffer'' = Some (JNum n)"
    by simp_all
  define d' where
    "d' = (apply_fields d (userUpdates (toString u) t d))(''rewardGiven'' \<mapsto> JBool True)"
  let ?ws = "[UpdateUser r [(''coins'', Put (JNum (c + 500))), (''reffer'', Put (JNum (n + 1)))],
              SetReward (toString u)
                \<lparr>r_userId = JStr (toString u), r_referrerId = JStr r, r_reward = 500\<rparr>,
              UpdateUser (toString u)
                (userUpdates (toString u) t d @ [(''rewardGiven'', Put (JBool True))])]"
  let ?s1 = "s\<lparr>users := (users s)(r \<mapsto> rd(''coins'' \<mapsto> JNum (c + 500), ''reffer'' \<mapsto> JNum (n + 1)),
                               toString u \<mapsto> d'),
               ref_rewards := (ref_rewards s)(toString u \<mapsto>
                  \<lparr>r_userId = JStr (toString u), r_referrerId = JStr r, r_reward = 500\<rparr>)\<rparr>"
  have w: "process_writes V2 u t s = Inr ?ws"
    using v2_reward_writes[OF d h(2) h(1) h(3) rd] h(5,6) by simp
  have r: "rewarded ?ws" by (simp add: rewarded_def)
  have a: "apply_writes ?ws s = Inr ?s1"
    using d rd h(4) by (simp add: d'_def)
  have "d' \<noteq> d"
    using h(2) unfolding d'_def by (metis fun_upd_same truthy.simps(3))
  then have ne: "users ?s1 (toString u) \<noteq> users s (toString u)"
    using d by simp
  have c: "\<exists>rd'. users ?s1 r = Some rd' \<and> rd' ''coins'' = Some (JNum (c + 500))
                     \<and> rd' ''reffer'' = Some (JNum (n + 1))"
    using h(4) by simp
  have e: "\<exists>e. ref_rewards ?s1 (toString u) = Some e \<and> r_reward e = 500
                   \<and> r_referrerId e = JStr r"
    by simp
  have "(d'(''rewardGiven'' \<mapsto> JBool False)) ''refferBy''
          = (if truthy (d ''refferBy'') then d ''refferBy'' else Some (JStr r))"
    using h(1,3) by (simp add: d'_def userUpdates_fields)
  then have "finalReferrerId (toString u) t (d'(''rewardGiven'' \<mapsto> JBool False)) = Some (JStr r)"
    using finalReferrerId_after_updates[OF h(1) h(3)] by blast
  then have g: "reward_due V2 u t (clear_flag u ?s1) r (c + 500) (n + 1)"
    using h(3,4) by (simp add: clear_flag_def)
  show ?thesis
    by (rule exI[of _ ?ws], rule exI[of _ ?s1]) (intro conjI w r a ne c e g)
qed

lemma v3_reward_writes:
  assumes "users s (toString u) = Some d" "d ''rewardGiven'' \<noteq> Some (JBool True)" "r \<noteq> []"
  shows "\<exists>w1 cr. reward_txn_v3 u r s =
           Inr (w1 @ [SetMergeUser r [(''coins'', Incr 500), (''reffer'', Incr 1)],
                      UpdateUser (toString u) [(''rewardGiven'', Put (JBool True))],
                      SetReward (toString u)
                        \<lparr>r_userId = JNum u, r_referrerId = cr, r_reward = 500\<rparr>])
         \<and> (w1 = [] \<or> w1 = [SetMergeUser (toString u) [(''refferBy'', Put (JStr r))]])"
proof (cases "truthy (d ''refferBy'')")
  case True
  then obtain cr where "d ''refferBy'' = Some cr" by (cases "d ''refferBy''") auto
  then show ?thesis
    using assms True by (simp add: reward_txn_v3_def Let_def)
next
  case False
  then show ?thesis
    using assms by (simp add: reward_txn_v3_def Let_def)
qed

lemma reward_due_v3:
  assumes "reward_due V3 u t s r c n"
  shows "\<exists>ws s1. process_writes V3 u t s = Inr ws \<and> rewarded ws \<and> apply_writes ws s = Inr s1
           \<and> users s1 (toString u) \<noteq> users s (toString u)
           \<and> (\<exists>rd'. users s1 r = Some rd' \<and> rd' ''coins'' = Some (JNum (c + 500))
                     \<and> rd' ''reffer'' = Some (JNum (n + 1)))
           \<and> (\<exists>e. ref_rewards s1 (toString u) = Some e \<and> r_reward e = 500
                   \<and> r_referrerId e = JStr r)
           \<and> reward_due V3 u t (clear_flag u s1) r (c + 500) (n + 1)"
proof -
  from assms obtain d where d: "users s (toString u) = Some d"
    by (auto split: option.splits)
  from assms d obtain rd where rd: "users s r = Some rd"
    by (auto split: option.splits)
  from assms d rd have h: "t = Some r"
      "d ''rewardGiven'' \<noteq> Some (JBool True)" "r \<noteq> []" "r \<noteq> toString u"
      "rd ''coins'' = Some (JNum c)" "rd ''reffer'' = Some (JNum n)"
    and st: "truthy (d ''refferBy'') \<Longrightarrow> d ''refferBy'' = Some (JStr r)"
    by (simp_all split: if_splits)
  define w1 where "w1 = (if truthy (d ''refferBy'') then []
                         else [SetMergeUser (toString u) [(''refferBy'', Put (JStr r))]])"
  define d0 where "d0 = (if truthy (d ''refferBy'') then d else d(''refferBy'' \<mapsto> JStr r))"
  let ?ws = "w1 @ [SetMergeUser r [(''coins'', Incr 500), (''reffer'', Incr 1)],
                      UpdateUser (toString u) [(''rewardGiven'', Put (JBool True))],
                      SetReward (toString u)
                        \<lparr>r_userId = JNum u, r_referrerId = JStr r, r_reward = 500\<rparr>]"
  let ?s1 = "s\<lparr>users := (users s)(toString u \<mapsto> d0(''rewardGiven'' \<mapsto> JBool True),
                               r \<mapsto> rd(''coins'' \<mapsto> JNum (c + 500), ''reffer'' \<mapsto> JNum (n + 1))),
               ref_rewards := (ref_rewards s)(toString u \<mapsto>
                  \<lparr>r_userId = JNum u, r_referrerId = JStr r, r_reward = 500\<rparr>)\<rparr>"
  have w: "reward_txn_v3 u r s = Inr ?ws"
    using d h(2,3) st
    by (cases "truthy (d ''refferBy'')") (simp_all add: reward_txn_v3_def Let_def w1_def)
  have pw: "process_writes V3 u t s = Inr ?ws"
    using w h by simp
  have r: "rewarded ?ws" by (simp add: rewarded_def w1_def)
  have a: "apply_writes ?ws s = Inr ?s1"
    using d rd h(4,5,6) by (auto simp: w1_def d0_def fun_upd_twist)
  have "d0(''rewardGiven'' \<mapsto> JBool True) \<noteq> d"
    using h(2) by (metis fun_upd_same)
  then have ne: "users ?s1 (toString u) \<noteq> users s (toString u)"
    using d h(4) by simp
  have c: "\<exists>rd'. users ?s1 r = Some rd' \<and> rd' ''coins'' = Some (JNum (c + 500))
                     \<and> rd' ''reffer'' = Some (JNum (n + 1))"
    by simp
  have e: "\<exists>e. ref_rewards ?s1 (toString u) = Some e \<and> r_reward e = 500
                   \<and> r_referrerId e = JStr r"
    by simp
  have "d0 ''refferBy'' = Some (JStr r)"
    using st by (simp add: d0_def)
  then have g: "reward_due V3 u t (clear_flag u ?s1) r (c + 500) (n + 1)"
    using h by (simp add: clear_flag_def)
  show ?thesis
    by (rule exI[of _ ?ws], rule exI[of _ ?s1]) (intro conjI pw r a ne c e g)
qed

lemma reward_due_writes:
  assumes "reward_due var u t s r c n"
  shows "\<exists>ws s1. process_writes var u t s = Inr ws \<and> rewarded ws \<and> apply_writes ws s = Inr s1
           \<and> users s1 (toString u) \<noteq> users s (toString u)
           \<and> (\<exists>rd'. users s1 r = Some rd' \<and> rd' ''coins'' = Some (JNum (c + 500))
                     \<and> rd' ''reffer'' = Some (JNum (n + 1)))
           \<and> (\<exists>e. ref_rewards s1 (toString u) = Some e \<and> r_reward e = 500
                   \<and> r_referrerId e = JStr r)
           \<and> reward_due var u t (clear_flag u s1) r (c + 500) (n + 1)"
proof (cases var)
  case V1
  then show ?thesis using assms reward_due_v1 by simp
next
  case V2
  then show ?thesis using assms reward_due_v2 by simp
next
  case V3
  then show ?thesis using assms reward_due_v3 by simp
qed

lemma set_update_keep:
  assumes "i < length cs" "y \<in> set cs" "y \<noteq> cs ! i"
  shows "y \<in> set (cs[i := x])"
proof -
  from assms(2) obtain j where j: "j < length cs" "cs ! j = y"
    by (auto simp: in_set_conv_nth)
  with assms(3) have "j \<noteq> i" by auto
  with j have "cs[i := x] ! j = y" "j < length (cs[i := x])" by simp_all
  then show ?thesis by (metis nth_mem)
qed

lemma set_update_cases:
  assumes "y \<in> set (cs[i := x])"
  shows "y = x \<or> y \<in> set cs"
  using assms set_update_subset_insert[of cs i x] by auto

lemma user_key_read: "toString u \<in> set (read_keys var u t snap)"
  by (cases var) (simp_all only: read_keys.simps list.set insert_iff simp_thms)

lemma inv_once_step:
  assumes w0: "process_writes var u t s0 = Inr ws0" and a0: "apply_writes ws0 s0 = Inr s1"
    and ne: "users s1 (toString u) \<noteq> users s0 (toString u)"
    and w1: "process_writes var u t s1 = Inr []"
    and inv: "inv_once s0 s1 cfg" and st: "step var u t cfg cfg'"
  shows "inv_once s0 s1 cfg'"
  using st inv
proof (cases rule: step.cases)
  case (begin_read i cs s)
  have "Committed \<in> set (cs[i := Reading s]) \<longleftrightarrow> Committed \<in> set cs"
    using begin_read(3,4) set_update_keep[of i cs Committed "Reading s"]
          set_update_cases[of Committed cs i "Reading s"] by auto
  moreover have "Reading snap \<in> set (cs[i := Reading s]) \<Longrightarrow> snap = s \<or> Reading snap \<in> set cs" for snap
    using set_update_cases[of "Reading snap" cs i "Reading s"] by auto
  ultimately show ?thesis
    using inv begin_read(1,2) unfolding inv_once_def by auto
next
  case (commit i cs snap s ws s')
  have snap_in: "Reading snap \<in> set cs"
    using commit(3,4) by (metis nth_mem)
  have k: "toString u \<in> set (read_keys var u t snap)"
    by (rule user_key_read)
  have same: "users snap (toString u) = users s (toString u)"
    using commit(5) k unfolding reads_unchanged_def by (simp add: list_all_iff)
  have mem: "Committed \<in> set (cs[i := Committed])"
    using commit(3) by (simp add: set_update_memI)
  have rd: "Reading sn \<in> set (cs[i := Committed]) \<Longrightarrow> Reading sn \<in> set cs" for sn
    using set_update_cases[of "Reading sn" cs i Committed] by auto
  from inv commit(1) consider
      (A) "s = s0" "Committed \<notin> set cs" "\<forall>snap. Reading snap \<in> set cs \<longrightarrow> snap = s0"
    | (B) "s = s1" "Committed \<in> set cs" "\<forall>snap. Reading snap \<in> set cs \<longrightarrow> snap = s0 \<or> snap = s1"
    unfolding inv_once_def by auto
  then show ?thesis
  proof cases
    case A
    then have "snap = s0" using snap_in by blast
    then have "s' = s1" using commit(6,7) w0 a0 A(1) by simp
    then show ?thesis
      using A(3) mem rd commit(2) unfolding inv_once_def by auto
  next
    case B
    have "snap = s1"
    proof (rule ccontr)
      assume "snap \<noteq> s1"
      then have "snap = s0" using B(3) snap_in by blast
      then show False using same B(1) ne by simp
    qed
    then have "s' = s1" using commit(6,7) w1 B(1) by simp
    then show ?thesis
      using B(3) mem rd commit(2) unfolding inv_once_def by auto
  qed
next
  case (retry i cs snap s)
  have "Committed \<in> set (cs[i := Idle]) \<longleftrightarrow> Committed \<in> set cs"
    using retry(3,4) set_update_keep[of i cs Committed Idle]
          set_update_cases[of Committed cs i Idle] by auto
  moreover have "Reading sn \<in> set (cs[i := Idle]) \<Longrightarrow> Reading sn \<in> set cs" for sn
    using set_update_cases[of "Reading sn" cs i Idle] by auto
  ultimately show ?thesis
    using inv retry(1,2) unfolding inv_once_def by auto
next
  case (give_up i cs snap s)
  have "Committed \<in> set (cs[i := Failed]) \<longleftrightarrow> Committed \<in> set cs"
    using give_up(3,4) set_update_keep[of i cs Committed Failed]
          set_update_cases[of Committed cs i Failed] by auto
  moreover have "Reading sn \<in> set (cs[i := Failed]) \<Longrightarrow> Reading sn \<in> set cs" for sn
    using set_update_cases[of "Reading sn" cs i Failed] by auto
  ultimately show ?thesis
    using inv give_up(1,2) unfolding inv_once_def by auto
qed

lemma inv_once_reach:
  assumes w0: "process_writes var u t s0 = Inr ws0" and a0: "apply_writes ws0 s0 = Inr s1"
    and ne: "users s1 (toString u) \<noteq> users s0 (toString u)"
    and w1: "process_writes var u t s1 = Inr []"
    and reach: "(step var u t)\<^sup>*\<^sup>* (s0, replicate N Idle) cfg"
  shows "inv_once s0 s1 cfg"
  using reach
proof (induction rule: rtranclp_induct)
  case base
  show ?case by (simp add: inv_once_def)
next
  case (step y z)
  from inv_once_step[OF w0 a0 ne w1 step.IH step.hyps(2)] show ?case .
qed

text \<open>
  Calls for one user with one token, run concurrently as transactions only, in any
  interleaving of reads, commits, retries and failures, from a store where a reward is
  due to the referrer \<open>r\<close> with \<open>c\<close> coins and \<open>n\<close> referrals. At every moment the store is
  the initial one if no call has committed yet, and otherwise exactly what one call run
  alone leaves: \<open>r\<close> has \<open>c + 500\<close> coins and \<open>n + 1\<close> referrals and the ledger holds the
  entry keyed by the user, naming \<open>r\<close>, with the reward 500. The guard is
  \<^verbatim>\<open>rewardGiven\<close>, read inside the transaction: with the flag set a call writes nothing,
  and were the flag alone set back, the call would issue the reward again. This holds of
  variants 1 and 2, and of variant 3 as long as the token names the effective referrer
  and nothing but the transactions writes the user's record.
\<close>

lemma one_reward_under_interleaving:
  assumes "reward_due var u t s0 r c n"
    and "(step var u t)\<^sup>*\<^sup>* (s0, replicate N Idle) (s, cs)"
  shows "s = (if Committed \<in> set cs then process var True u t s0 else s0)
       \<and> (\<exists>rd. users s r = Some rd
              \<and> rd ''coins'' = Some (JNum (if Committed \<in> set cs then c + 500 else c))
              \<and> rd ''reffer'' = Some (JNum (if Committed \<in> set cs then n + 1 else n)))
       \<and> (if Committed \<in> set cs
          then \<exists>e. ref_rewards s (toString u) = Some e \<and> r_reward e = 500
                   \<and> r_referrerId e = JStr r
          else ref_rewards s = ref_rewards s0)
       \<and> process_writes var u t (process var True u t s0) = Inr []
       \<and> (\<exists>ws. process_writes var u t (clear_flag u (process var True u t s0)) = Inr ws
               \<and> rewarded ws)"
proof -
  from reward_due_writes[OF assms(1)] obtain ws s1 where
    h: "process_writes var u t s0 = Inr ws" "rewarded ws" "apply_writes ws s0 = Inr s1"
       "users s1 (toString u) \<noteq> users s0 (toString u)"
       "\<exists>rd'. users s1 r = Some rd' \<and> rd' ''coins'' = Some (JNum (c + 500))
                     \<and> rd' ''reffer'' = Some (JNum (n + 1))"
       "\<exists>e. ref_rewards s1 (toString u) = Some e \<and> r_reward e = 500
                   \<and> r_referrerId e = JStr r"
       "reward_due var u t (clear_flag u s1) r (c + 500) (n + 1)"
    by blast
  have w1: "process_writes var u t s1 = Inr []"
    using h(1,2,3) by (rule no_writes_after_reward)
  have p: "process var True u t s0 = s1"
    using h(1,3) by (simp add: process_eq)
  have r0: "\<exists>rd. users s0 r = Some rd \<and> rd ''coins'' = Some (JNum c) \<and> rd ''reffer'' = Some (JNum n)"
    using assms(1) by (cases var) (auto split: option.splits)
  from inv_once_reach[OF h(1) h(3) h(4) w1 assms(2)]
  have "(s = s0 \<and> Committed \<notin> set cs) \<or> (s = s1 \<and> Committed \<in> set cs)"
    unfolding inv_once_def by auto
  moreover have "\<exists>ws. process_writes var u t (clear_flag u s1) = Inr ws \<and> rewarded ws"
    using reward_due_writes[OF h(7)] by blast
  ultimately show ?thesis
    using p r0 h(5,6) w1 by auto
qed

lemma reads_unchanged_refl: "reads_unchanged var u t s s"
  by (simp add: reads_unchanged_def list_all_iff)

lemma referred_store_due: "reward_due V2 42 (Some ''R1'') referred_store ''R1'' 0 0"
  by (simp add: toString_42 referred_store_def new_doc_def finalReferrerId_def)

lemma two_calls_run:
  assumes w: "process_writes var u t s0 = Inr ws" and a: "apply_writes ws s0 = Inr s1"
    and w1: "process_writes var u t s1 = Inr []"
  shows "(step var u t)\<^sup>*\<^sup>* (s0, [Idle, Idle]) (s1, [Committed, Committed])"
proof -
  have 1: "step var u t (s0, [Idle, Idle]) (s0, [Reading s0, Idle])"
    using begin_read[of 0 "[Idle, Idle]" var u t s0] by simp
  have 2: "step var u t (s0, [Reading s0, Idle]) (s0, [Reading s0, Reading s0])"
    using begin_read[of 1 "[Reading s0, Idle]" var u t s0] by simp
  have 3: "step var u t (s0, [Reading s0, Reading s0]) (s1, [Committed, Reading s0])"
    using commit[of 0 "[Reading s0, Reading s0]" s0 var u t s0 ws s1] w a
    by (simp add: reads_unchanged_refl)
  have 4: "step var u t (s1, [Committed, Reading s0]) (s1, [Committed, Idle])"
    using retry[of 1 "[Committed, Reading s0]" s0 var u t s1] by simp
  have 5: "step var u t (s1, [Committed, Idle]) (s1, [Committed, Reading s1])"
    using begin_read[of 1 "[Committed, Idle]" var u t s1] by simp
  have 6: "step var u t (s1, [Committed, Reading s1]) (s1, [Committed, Committed])"
    using commit[of 1 "[Committed, Reading s1]" s1 var u t s1 "[]" s1] w1
    by (simp add: reads_unchanged_refl)
  from 1 2 3 4 5 6 show ?thesis
    by (meson rtranclp.rtrancl_into_rtrancl rtranclp.rtrancl_refl)
qed

lemma referred_store_due_v3: "reward_due V3 42 (Some ''R1'') referred_store ''R1'' 0 0"
  by (simp add: toString_42 referred_store_def new_doc_def)

lemma two_calls_when_due:
  assumes "reward_due var u t s0 r c n"
  shows "(step var u t)\<^sup>*\<^sup>* (s0, replicate (Suc (Suc 0)) Idle)
           (process var True u t s0, [Committed, Committed])"
proof -
  from reward_due_writes[OF assms] obtain ws s1 where
    h: "process_writes var u t s0 = Inr ws" "rewarded ws" "apply_writes ws s0 = Inr s1"
    by blast
  have p: "process var True u t s0 = s1" using h(1,3) by (simp add: process_eq)
  have w1: "process_writes var u t s1 = Inr []"
    using h by (rule no_writes_after_reward)
  show ?thesis
    using two_calls_run[OF h(1) h(3) w1] p by simp
qed

text \<open>
  Two concurrent calls for the new user 42 with the token R1, in variants 2 and 3: both
  read, the first commits, the second is sent back, reads again and commits nothing. R1
  ends with 500 coins and one referral, and the ledger holds one entry for 42.
\<close>

lemma two_calls_example:
  "(step V2 42 (Some ''R1''))\<^sup>*\<^sup>* (referred_store, [Idle, Idle])
      (process V2 True 42 (Some ''R1'') referred_store, [Committed, Committed])
   \<and> (\<exists>rd. users (process V2 True 42 (Some ''R1'') referred_store) ''R1'' = Some rd
          \<and> rd ''coins'' = Some (JNum 500) \<and> rd ''reffer'' = Some (JNum 1))
   \<and> (\<exists>e. ref_rewards (process V2 True 42 (Some ''R1'') referred_store) ''42'' = Some e
          \<and> r_reward e = 500 \<and> r_referrerId e = JStr ''R1'')
   \<and> (step V3 42 (Some ''R1''))\<^sup>*\<^sup>* (referred_store, [Idle, Idle])
      (process V3 True 42 (Some ''R1'') referred_store, [Committed, Committed])
   \<and> (\<exists>rd. users (process V3 True 42 (Some ''R1'') referred_store) ''R1'' = Some rd
          \<and> rd ''coins'' = Some (JNum 500) \<and> rd ''reffer'' = Some (JNum 1))
   \<and> (\<exists>e. ref_rewards (process V3 True 42 (Some ''R1'') referred_store) ''42'' = Some e
          \<and> r_reward e = 500 \<and> r_referrerId e = JStr ''R1'')"
proof -
  note run2 = two_calls_when_due[OF referred_store_due]
  note run3 = two_calls_when_due[OF referred_store_due_v3]
  show ?thesis
    using one_reward_under_interleaving [OF referred_store_due run2]
          one_reward_under_interleaving [OF referred_store_due_v3 run3] run2 run3
    by (simp add: toString_42)
qed

end
